theory Spec2Isabelle
  imports Main
begin

section \<open>The Wisconsin Shell (wsh.c): data model\<close>

text \<open>
  C strings are modelled as \<^typ>\<open>string\<close> (the characters before the terminating NUL),
  a possibly-NULL \<open>char *\<close> as \<^typ>\<open>string option\<close>, and a NULL-terminated \<open>char **\<close>
  argument vector as the list of its entries before the NULL. \<open>strdup\<close>, \<open>malloc\<close> and
  \<open>realloc\<close> are taken to succeed, so a copy of a string is the string and the branches
  that report an allocation error are not part of the model. The \<open>int\<close> fields of
  the history are modelled as \<^typ>\<open>int\<close>; the model keeps the mathematical value of
  \<open>start + count\<close>, which the C code computes without overflow while the capacity stays
  below \<open>2^30\<close>. The operands of \<open>%\<close> are never negative there, so that \<open>%\<close> is \<open>mod\<close>.
  The two global variables \<open>var_head\<close> and \<open>history\<close>, the environment of the process and
  the calls that write to the terminal form the state that each function takes and
  returns.
\<close>

subsection \<open>Constants of wsh.h and the built-in table\<close>

definition DELIMITERS :: string where
  "DELIMITERS = [CHR '' '', CHR 0x09, CHR 0x0D, CHR 0x0A, CHR 0x07]"

definition DEFAULT_PATH :: string where
  "DEFAULT_PATH = ''/bin''"

definition MAX_HISTORY :: int where
  "MAX_HISTORY = 5"

definition builtin_str :: "string list" where
  "builtin_str = [''cd'', ''exit'', ''export'', ''local'', ''vars'', ''history'', ''ls'']"

text \<open>
  The loop \<open>for (i = 0; i < num_builtins(); i++) if (strcmp(name, builtin_str[i]) == 0)\<close>:
  the index of the first table entry equal to \<open>name\<close>, if any.
\<close>

fun find_builtin :: "string \<Rightarrow> string list \<Rightarrow> nat \<Rightarrow> nat option" where
  "find_builtin name [] i = None"
| "find_builtin name (b # bs) i = (if name = b then Some i else find_builtin name bs (Suc i))"

subsection \<open>The history ring\<close>

record History =
  commands :: "string option list"
  capacity :: int
  count :: int
  start :: int

text \<open>
  The calls that the model records in the trace of a process: \<open>printf\<close> and
  \<open>fprintf(stderr, ...)\<close> with their format and arguments, \<open>perror\<close> with its prefix, and
  a successful \<open>chdir\<close>.
\<close>

datatype parg = ArgInt int | ArgStr string

datatype event =
    Printf string "parg list"
  | Eprintf string "parg list"
  | Perror string
  | Chdir string

record shell =
  env :: "string \<rightharpoonup> string"
  var_head :: "(string \<times> string) list"
  history :: History
  trace :: "event list"

text \<open>\<open>initialize_shell\<close>, from the state of the globals at program start.\<close>

definition initial_history :: History where
  "initial_history =
     \<lparr>commands = replicate (nat MAX_HISTORY) None, capacity = MAX_HISTORY, count = 0, start = 0\<rparr>"

definition initialize_shell :: "(string \<rightharpoonup> string) \<Rightarrow> shell" where
  "initialize_shell inherited =
     \<lparr>env = inherited(''PATH'' \<mapsto> DEFAULT_PATH), var_head = [], history = initial_history,
      trace = []\<rparr>"

text \<open>
  \<open>cleanup_shell\<close> frees every variable node, every stored command and the command array.
  The model has no heap: released storage is modelled as emptied.
\<close>

definition cleanup_shell :: "shell \<Rightarrow> shell" where
  "cleanup_shell s = s\<lparr>var_head := [], history := (history s)\<lparr>commands := []\<rparr>\<rparr>"

text \<open>The index \<open>(history.start + k) % history.capacity\<close> into \<open>history.commands\<close>.\<close>

definition slot :: "History \<Rightarrow> int \<Rightarrow> nat" where
  "slot h k = nat ((start h + k) mod capacity h)"

text \<open>
  \<open>add_history\<close>. The slot that \<open>strcmp\<close> reads holds a string in every well-formed ring
  (\<open>hist_inv\<close> below); a NULL there, on which C would fault, compares as different.
\<close>

definition add_history :: "string \<Rightarrow> History \<Rightarrow> History" where
  "add_history command h =
     (if capacity h = 0 then h
      else if find_builtin command builtin_str 0 \<noteq> None then h
      else if count h > 0 \<and> commands h ! slot h (count h - 1) = Some command then h
      else if count h < capacity h then
        h\<lparr>commands := (commands h)[slot h (count h) := Some command], count := count h + 1\<rparr>
      else
        h\<lparr>commands := (commands h)[nat (start h) := Some command],
          start := (start h + 1) mod capacity h\<rparr>)"

text \<open>
  \<open>show_history\<close> prints one line per entry; the model returns the \<open>printf\<close> calls.
  (\<open>%s\<close> of a NULL pointer, which no reachable state has, is shown as glibc prints it.)
\<close>

definition show_str :: "string option \<Rightarrow> string" where
  "show_str p = (case p of None \<Rightarrow> ''(null)'' | Some c \<Rightarrow> c)"

definition show_history :: "History \<Rightarrow> event list" where
  "show_history h =
     map (\<lambda>i. Printf ''%d) %s\<newline>''
                 [ArgInt (int i + 1), ArgStr (show_str (commands h ! slot h (count h - 1 - int i)))])
         [0..<nat (count h)]"

text \<open>
  \<open>set_history_capacity\<close>: the copy loop fills the new array from index 0 with the entries
  \<open>history.commands[(start + count - 1 - i) % capacity]\<close>, the rest stays NULL.
\<close>

definition set_history_capacity :: "int \<Rightarrow> shell \<Rightarrow> shell" where
  "set_history_capacity cap s =
     (if cap \<le> 0 then
        s\<lparr>trace := trace s @ [Eprintf ''wsh: history capacity must be positive\<newline>'' []]\<rparr>
      else
        let h = history s;
            new_count = (if count h < cap then count h else cap);
            copied = map (\<lambda>i. commands h ! slot h (count h - 1 - int i)) [0..<nat new_count];
            new_commands = copied @ replicate (nat cap - nat new_count) None
        in s\<lparr>history := \<lparr>commands = new_commands, capacity = cap, count = new_count,
                           start = 0\<rparr>\<rparr>)"


section \<open>Tokenizer and substitution\<close>

text \<open>
  \<open>strtok\<close>: skip leading delimiters; if nothing is left there is no token; otherwise the
  token runs up to the next delimiter, and the scan resumes after that delimiter. The
  saved position of the C function is the second component of the result.
\<close>

definition strtok :: "string \<Rightarrow> string \<Rightarrow> (string \<times> string) option" where
  "strtok delim str =
     (let s1 = dropWhile (\<lambda>c. c \<in> set delim) str in
      if s1 = [] then None
      else Some (takeWhile (\<lambda>c. c \<notin> set delim) s1,
                 drop 1 (dropWhile (\<lambda>c. c \<notin> set delim) s1)))"

lemma strtok_shorter: "strtok delim str = Some (tok, rest) \<Longrightarrow> length rest < length str"
proof -
  assume a: "strtok delim str = Some (tok, rest)"
  let ?s1 = "dropWhile (\<lambda>c. c \<in> set delim) str"
  from a have ne: "?s1 \<noteq> []" and r: "rest = drop 1 (dropWhile (\<lambda>c. c \<notin> set delim) ?s1)"
    by (auto simp: strtok_def Let_def split: if_splits)
  have "length rest < length ?s1"
    using ne length_dropWhile_le [of "\<lambda>c. c \<notin> set delim" ?s1] unfolding r
    by (cases ?s1) auto
  moreover have "length ?s1 \<le> length str" by (rule length_dropWhile_le)
  ultimately show ?thesis by simp
qed

text \<open>The successive tokens that repeated \<open>strtok\<close> calls return.\<close>

function strtok_all :: "string \<Rightarrow> string \<Rightarrow> string list" where
  "strtok_all delim str =
     (case strtok delim str of
        None \<Rightarrow> []
      | Some (tok, rest) \<Rightarrow> tok # strtok_all delim rest)"
  by pat_completeness auto
termination
  by (relation "measure (\<lambda>(delim, str). length str)") (auto dest: strtok_shorter)

declare strtok_all.simps [simp del]

text \<open>The linked-list search \<open>while (current) { if (strcmp(current->name, name) == 0) ... }\<close>.\<close>

fun lookup_var :: "(string \<times> string) list \<Rightarrow> string \<Rightarrow> string option" where
  "lookup_var [] name = None"
| "lookup_var ((n, v) # rest) name = (if n = name then Some v else lookup_var rest name)"

text \<open>\<open>getenv\<close>: the environment is a map from names to values.\<close>

definition getenv :: "shell \<Rightarrow> string \<Rightarrow> string option" where
  "getenv s name = env s name"

definition handle_variable_substitution :: "shell \<Rightarrow> string \<Rightarrow> string" where
  "handle_variable_substitution s token =
     (case token of
        [] \<Rightarrow> token
      | c # var_name \<Rightarrow>
          if c \<noteq> CHR ''$'' then token
          else (case getenv s var_name of
                  Some env_value \<Rightarrow> env_value
                | None \<Rightarrow>
                    (case lookup_var (var_head s) var_name of
                       Some v \<Rightarrow> v
                     | None \<Rightarrow> [])))"

text \<open>
  \<open>parse_line\<close>: the \<open>while (token != NULL)\<close> loop, with the token array as accumulator.
\<close>

function parse_loop :: "shell \<Rightarrow> string list \<Rightarrow> string \<Rightarrow> string list" where
  "parse_loop s tokens str =
     (case strtok DELIMITERS str of
        None \<Rightarrow> tokens
      | Some (token, rest) \<Rightarrow>
          parse_loop s (tokens @ [handle_variable_substitution s token]) rest)"
  by pat_completeness auto
termination
  by (relation "measure (\<lambda>(s, tokens, str). length str)") (auto dest: strtok_shorter)

declare parse_loop.simps [simp del]

definition parse_line :: "shell \<Rightarrow> string \<Rightarrow> string list" where
  "parse_line s line = parse_loop s [] line"

section \<open>Redirection\<close>

text \<open>
  The four output slots of \<open>parse_redirection\<close>: \<open>*input\<close>, \<open>*output\<close>, \<open>*append\<close> and
  \<open>*redirect_stderr\<close> (the two flags, 0 or 1 in C, as booleans).
\<close>

record redirection =
  input_path :: "string option"
  output_path :: "string option"
  append_flag :: bool
  redirect_stderr :: bool

definition no_redirection :: redirection where
  "no_redirection = \<lparr>input_path = None, output_path = None, append_flag = False, redirect_stderr = False\<rparr>"

text \<open>\<open>strncmp(a, b, n) == 0\<close>: the first \<open>n\<close> characters agree (or both strings end before).\<close>

definition strncmp_is_0 :: "string \<Rightarrow> string \<Rightarrow> nat \<Rightarrow> bool" where
  "strncmp_is_0 a b n = (take n a = take n b)"

text \<open>
  The scan of \<open>parse_redirection\<close>, with the source's order of tests. Setting
  \<open>args[i] = NULL\<close> ends the argument vector at \<open>i\<close>: the result keeps the entries before it.
\<close>

fun scan_redirection :: "string list \<Rightarrow> string list \<times> redirection" where
  "scan_redirection [] = ([], no_redirection)"
| "scan_redirection (a # rest) =
     (if strncmp_is_0 a ''>>'' 2 then
        ([], no_redirection\<lparr>append_flag := True, output_path := Some (drop 2 a)\<rparr>)
      else if strncmp_is_0 a ''>'' 1 then
        ([], no_redirection\<lparr>output_path := Some (drop 1 a)\<rparr>)
      else if strncmp_is_0 a ''<'' 1 then
        ([], no_redirection\<lparr>input_path := Some (drop 1 a)\<rparr>)
      else if strncmp_is_0 a ''&>'' 2 then
        ([], no_redirection\<lparr>output_path := Some (drop 2 a), redirect_stderr := True\<rparr>)
      else if strncmp_is_0 a ''&>>'' 3 then
        ([], no_redirection\<lparr>output_path := Some (drop 3 a), append_flag := True,
                               redirect_stderr := True\<rparr>)
      else (case scan_redirection rest of (args', r) \<Rightarrow> (a # args', r)))"

text \<open>The returned triple is the status (always 0), the argument vector left, the intent.\<close>

definition parse_redirection :: "string list \<Rightarrow> int \<times> string list \<times> redirection" where
  "parse_redirection args = (case scan_redirection args of (args', r) \<Rightarrow> (0, args', r))"


section \<open>Processes\<close>

text \<open>
  What the operating system answers is a parameter of the model: the value \<open>fork\<close> returns
  in the process that is modelled (0 in the child, negative on failure, the child's pid in
  the shell), the successive reports of \<open>waitpid\<close>, which system calls of
  \<open>apply_redirection\<close> fail, which paths \<open>access(path, X_OK)\<close> accepts, which \<open>execv\<close>
  and \<open>chdir\<close> calls succeed.
\<close>

datatype syscall =
    Sys_dup nat
  | Sys_open_read string
  | Sys_open_write string bool
  | Sys_open_null
  | Sys_dup2 nat

datatype wait_status = W_error | W_exited int | W_signaled int | W_stopped int

record os =
  fork_pid :: int
  waits :: "wait_status list"
  sys_fails :: "syscall \<Rightarrow> bool"
  x_ok :: "string \<Rightarrow> bool"
  execv_ok :: "string \<Rightarrow> bool"
  chdir_ok :: "string \<Rightarrow> bool"

text \<open>Where the three standard descriptors of a process point.\<close>

datatype fd_target = Inherited | FileRead string | FileWrite string bool | DevNull

record fds =
  fd_stdin :: fd_target
  fd_stdout :: fd_target
  fd_stderr :: fd_target

definition std_fds :: fds where
  "std_fds = \<lparr>fd_stdin = Inherited, fd_stdout = Inherited, fd_stderr = Inherited\<rparr>"

text \<open>
  How a call ends in the modelled process: it returns a status to its caller, the process
  calls \<open>exit\<close>, the process image is replaced by \<open>execv(path, argv)\<close>, or the process
  dereferences NULL.
\<close>

datatype outcome =
    Returns int shell
  | Exits int shell
  | Execs string "string list" fds shell
  | Crashes shell

definition EXIT_SUCCESS :: int where
  "EXIT_SUCCESS = 0"

definition EXIT_FAILURE :: int where
  "EXIT_FAILURE = 1"

definition emit :: "event list \<Rightarrow> shell \<Rightarrow> shell" where
  "emit es s = s\<lparr>trace := trace s @ es\<rparr>"

subsection \<open>\<open>apply_redirection\<close> (runs in the child)\<close>

definition redirect_input :: "(syscall \<Rightarrow> bool) \<Rightarrow> string option \<Rightarrow> fds \<Rightarrow> string + fds" where
  "redirect_input fails inp f =
     (case inp of
        None \<Rightarrow> Inr f
      | Some path \<Rightarrow>
          if fails (Sys_open_read path) then Inl ''wsh: input redirection failed''
          else if fails (Sys_dup2 0) then Inl ''wsh: dup2 for stdin failed''
          else Inr (f\<lparr>fd_stdin := FileRead path\<rparr>))"

definition redirect_output ::
  "(syscall \<Rightarrow> bool) \<Rightarrow> string option \<Rightarrow> bool \<Rightarrow> fds \<Rightarrow> string + fds" where
  "redirect_output fails out app f =
     (case out of
        None \<Rightarrow> Inr f
      | Some path \<Rightarrow>
          if fails (Sys_open_write path app) then Inl ''wsh: output redirection failed''
          else if fails (Sys_dup2 1) then Inl ''wsh: dup2 for stdout failed''
          else Inr (f\<lparr>fd_stdout := FileWrite path app\<rparr>))"

definition redirect_error ::
  "(syscall \<Rightarrow> bool) \<Rightarrow> string option \<Rightarrow> bool \<Rightarrow> fds \<Rightarrow> string + fds" where
  "redirect_error fails out err f =
     (if err then
        (if out \<noteq> None then
           (if fails (Sys_dup2 2) then Inl ''wsh: dup2 for stderr failed''
            else Inr (f\<lparr>fd_stderr := fd_stdout f\<rparr>))
         else
           (if fails Sys_open_null then Inl ''wsh: opening /dev/null failed''
            else if fails (Sys_dup2 2) then Inl ''wsh: dup2 for stderr failed''
            else Inr (f\<lparr>fd_stderr := DevNull\<rparr>)))
      else Inr f)"

definition apply_redirection ::
  "(syscall \<Rightarrow> bool) \<Rightarrow> string option \<Rightarrow> string option \<Rightarrow> bool \<Rightarrow> bool \<Rightarrow> fds
     \<Rightarrow> int \<times> fds \<times> event list" where
  "apply_redirection fails inp out app err f =
     (if fails (Sys_dup 0) \<or> fails (Sys_dup 1) \<or> fails (Sys_dup 2) then
        (- 1, f, [Perror ''wsh: dup failed''])
      else
        (case redirect_input fails inp f of
           Inl msg \<Rightarrow> (- 1, f, [Perror msg])
         | Inr f1 \<Rightarrow>
             (case redirect_output fails out app f1 of
                Inl msg \<Rightarrow> (- 1, f1, [Perror msg])
              | Inr f2 \<Rightarrow>
                  (case redirect_error fails out err f2 of
                     Inl msg \<Rightarrow> (- 1, f2, [Perror msg])
                   | Inr f3 \<Rightarrow> (0, f3, [])))))"

subsection \<open>\<open>launch_process\<close>\<close>

text \<open>
  The search loop over the directories of \<open>PATH\<close>; \<open>snprintf\<close> into a buffer of 1024 bytes
  keeps at most 1023 characters.
\<close>

fun search_path :: "(string \<Rightarrow> bool) \<Rightarrow> string list \<Rightarrow> string \<Rightarrow> string option" where
  "search_path ok [] name = None"
| "search_path ok (dir # dirs) name =
     (let executable_path = take 1023 (dir @ ''/'' @ name) in
      if ok executable_path then Some executable_path else search_path ok dirs name)"

definition launch_child :: "os \<Rightarrow> string list \<Rightarrow> redirection \<Rightarrow> shell \<Rightarrow> outcome" where
  "launch_child w args r s =
     (case apply_redirection (sys_fails w) (input_path r) (output_path r) (append_flag r)
             (redirect_stderr r) std_fds of
        (st, f, msgs) \<Rightarrow>
          let s1 = emit msgs s in
          if st = - 1 then Exits EXIT_FAILURE s1
          else
            (case args of
               [] \<Rightarrow> Crashes s1
             | a0 # _ \<Rightarrow>
                 if CHR ''/'' \<in> set a0 then
                   (if execv_ok w a0 then Execs a0 args f s1
                    else Exits EXIT_FAILURE (emit [Perror ''wsh''] s1))
                 else
                   (case getenv s1 ''PATH'' of
                      None \<Rightarrow>
                        Exits EXIT_FAILURE (emit [Eprintf ''wsh: PATH not set\<newline>'' []] s1)
                    | Some path_env \<Rightarrow>
                        (case search_path (x_ok w) (strtok_all '':'' path_env) a0 of
                           None \<Rightarrow>
                             Exits EXIT_FAILURE
                               (emit [Eprintf ''wsh: command not found: %s\<newline>'' [ArgStr a0]] s1)
                         | Some executable_path \<Rightarrow>
                             if execv_ok w executable_path then Execs executable_path args f s1
                             else Exits EXIT_FAILURE (emit [Perror ''wsh''] s1)))))"

text \<open>
  The parent's \<open>do ... while (!WIFEXITED(status) && !WIFSIGNALED(status))\<close> loop over the
  reports of \<open>waitpid\<close>. \<open>None\<close>: no report ends the loop, the shell stays blocked.
\<close>

fun wait_loop :: "wait_status list \<Rightarrow> event list option" where
  "wait_loop [] = None"
| "wait_loop (W_error # ws) = Some [Perror ''wsh'']"
| "wait_loop (W_exited c # ws) = Some []"
| "wait_loop (W_signaled c # ws) = Some []"
| "wait_loop (W_stopped c # ws) = wait_loop ws"

definition launch_process :: "os \<Rightarrow> string list \<Rightarrow> shell \<Rightarrow> outcome option" where
  "launch_process w args s =
     (case parse_redirection args of
        (_, args', r) \<Rightarrow>
          if fork_pid w = 0 then Some (launch_child w args' r s)
          else if fork_pid w < 0 then Some (Returns 1 (emit [Perror ''wsh''] s))
          else (case wait_loop (waits w) of
                  None \<Rightarrow> None
                | Some es \<Rightarrow> Some (Returns 1 (emit es s))))"


section \<open>Built-in commands\<close>

text \<open>\<open>args[i]\<close>, read no further than the terminating NULL of the vector.\<close>

definition arg :: "string list \<Rightarrow> nat \<Rightarrow> string option" where
  "arg args i = (if i < length args then Some (args ! i) else None)"

text \<open>
  \<open>atoi\<close>, as the C library of the platform computes it: \<open>(int) strtol(str, NULL, 10)\<close>.
  \<open>strtol\<close> skips leading white space, reads an optional sign and the decimal digits, and
  returns their value as a \<open>long\<close> of 64 bits, \<open>LONG_MAX\<close> or \<open>LONG_MIN\<close> when the value
  does not fit; the conversion to \<open>int\<close> keeps the low 32 bits, read as a signed number.
\<close>

definition isspace :: "char \<Rightarrow> bool" where
  "isspace c = (c \<in> set [CHR '' '', CHR 0x09, CHR 0x0A, CHR 0x0B, CHR 0x0C, CHR 0x0D])"

definition isdigit :: "char \<Rightarrow> bool" where
  "isdigit c = (c \<in> set ''0123456789'')"

fun digits_value :: "int \<Rightarrow> string \<Rightarrow> int" where
  "digits_value acc [] = acc"
| "digits_value acc (c # cs) =
     (if isdigit c then digits_value (acc * 10 + (of_char c - 48)) cs else acc)"

definition LONG_MAX :: int where
  "LONG_MAX = 9223372036854775807"

definition LONG_MIN :: int where
  "LONG_MIN = - 9223372036854775808"

definition strtol :: "string \<Rightarrow> int" where
  "strtol str =
     (let v = (case dropWhile isspace str of
                 [] \<Rightarrow> 0
               | c # cs \<Rightarrow>
                   if c = CHR ''-'' then - digits_value 0 cs
                   else if c = CHR ''+'' then digits_value 0 cs
                   else digits_value 0 (c # cs))
      in if v > LONG_MAX then LONG_MAX else if v < LONG_MIN then LONG_MIN else v)"

definition int_of_long :: "int \<Rightarrow> int" where
  "int_of_long v = (v + 2147483648) mod 4294967296 - 2147483648"

definition atoi :: "string \<Rightarrow> int" where
  "atoi str = int_of_long (strtol str)"

definition wsh_cd :: "os \<Rightarrow> string list \<Rightarrow> shell \<Rightarrow> outcome" where
  "wsh_cd w args s =
     (case arg args 1 of
        None \<Rightarrow>
          Returns 1 (emit [Eprintf (''wsh: expected argument to '' @ [CHR 0x22] @ ''cd''
                                     @ [CHR 0x22] @ ''\<newline>'') []] s)
      | Some dir \<Rightarrow>
          if chdir_ok w dir then Returns 1 (emit [Chdir dir] s)
          else Returns 1 (emit [Perror ''wsh''] s))"

definition wsh_exit_cmd :: "string list \<Rightarrow> shell \<Rightarrow> outcome" where
  "wsh_exit_cmd args s =
     (if arg args 1 \<noteq> None then
        Returns 1 (emit [Eprintf ''wsh: exit takes no arguments\<newline>'' []] s)
      else Exits EXIT_SUCCESS (cleanup_shell s))"

text \<open>
  \<open>strchr(arg, '=')\<close> and the split at the first \<open>=\<close>: the name before it, the value after.
\<close>

definition split_assignment :: "string \<Rightarrow> (string \<times> string) option" where
  "split_assignment a =
     (if CHR ''='' \<notin> set a then None
      else Some (takeWhile (\<lambda>c. c \<noteq> CHR ''='') a, drop 1 (dropWhile (\<lambda>c. c \<noteq> CHR ''='') a)))"

text \<open>\<open>setenv(name, value, 1)\<close> fails on an empty name or a name with \<open>=\<close> in it.\<close>

definition setenv :: "string \<Rightarrow> string \<Rightarrow> shell \<Rightarrow> shell option" where
  "setenv name val s =
     (if name = [] \<or> CHR ''='' \<in> set name then None
      else Some (s\<lparr>env := (env s)(name \<mapsto> val)\<rparr>))"

definition wsh_export :: "string list \<Rightarrow> shell \<Rightarrow> outcome" where
  "wsh_export args s =
     (case arg args 1 of
        None \<Rightarrow> Returns 1 (emit [Eprintf ''wsh: export requires an argument\<newline>'' []] s)
      | Some a \<Rightarrow>
          (case split_assignment a of
             None \<Rightarrow>
               Returns 1 (emit [Eprintf ''wsh: export requires VAR=VALUE format\<newline>'' []] s)
           | Some (var, val) \<Rightarrow>
               (case setenv var val s of
                  None \<Rightarrow> Returns 1 (emit [Perror ''wsh''] s)
                | Some s' \<Rightarrow> Returns 1 s')))"

text \<open>
  The two loops of \<open>wsh_local_cmd\<close> over the variable list: the first node named \<open>var\<close>
  gets the new value; if there is none, a new node is linked after the last one.
\<close>

fun update_var :: "string \<Rightarrow> string \<Rightarrow> (string \<times> string) list \<Rightarrow> (string \<times> string) list" where
  "update_var var val [] = [(var, val)]"
| "update_var var val ((n, v) # rest) =
     (if n = var then (n, val) # rest else (n, v) # update_var var val rest)"

definition wsh_local_cmd :: "string list \<Rightarrow> shell \<Rightarrow> outcome" where
  "wsh_local_cmd args s =
     (case arg args 1 of
        None \<Rightarrow> Returns 1 (emit [Eprintf ''wsh: local requires an argument\<newline>'' []] s)
      | Some a \<Rightarrow>
          (case split_assignment a of
             None \<Rightarrow>
               Returns 1 (emit [Eprintf ''wsh: local requires VAR=VALUE format\<newline>'' []] s)
           | Some (var, val) \<Rightarrow>
               let processed_value = handle_variable_substitution s val in
               Returns 1 (s\<lparr>var_head := update_var var processed_value (var_head s)\<rparr>)))"

definition wsh_vars :: "string list \<Rightarrow> shell \<Rightarrow> outcome" where
  "wsh_vars args s =
     Returns 1 (emit (map (\<lambda>(n, v). Printf ''%s=%s\<newline>'' [ArgStr n, ArgStr v]) (var_head s)) s)"

definition wsh_ls :: "os \<Rightarrow> string list \<Rightarrow> shell \<Rightarrow> outcome option" where
  "wsh_ls w args s =
     (if fork_pid w = 0 then
        (let s1 = s\<lparr>env := (env s)(''LANG'' \<mapsto> ''C'')\<rparr> in
         if execv_ok w ''/bin/ls'' then
           Some (Execs ''/bin/ls'' [''ls'', ''-1'', ''--color=never''] std_fds s1)
         else Some (Exits EXIT_FAILURE (emit [Perror ''wsh''] s1)))
      else if fork_pid w < 0 then Some (Returns 1 (emit [Perror ''wsh''] s))
      else (case wait_loop (waits w) of
              None \<Rightarrow> None
            | Some es \<Rightarrow> Some (Returns 1 (emit es s))))"

section \<open>The command execution engine\<close>

text \<open>The \<open>strcat\<close> loop of \<open>execute_command\<close>: the arguments joined by single spaces.\<close>

fun join_args :: "string list \<Rightarrow> string" where
  "join_args [] = []"
| "join_args [a] = a"
| "join_args (a # b # rest) = a @ '' '' @ join_args (b # rest)"

text \<open>
  In C, \<open>execute_command\<close> calls \<open>execute_history_command\<close> (directly and through
  \<open>wsh_history_cmd\<close> in the built-in table), which calls \<open>execute_command\<close> again on the
  replayed line, without bound. In the model each of these functions takes the nested
  \<open>execute_command\<close> as its first parameter \<open>exec\<close>, and \<open>execute_command n\<close> allows \<open>n\<close>
  replays inside one another. \<open>None\<close> says that this bound is exceeded (or that the shell
  stays blocked in \<open>waitpid\<close>); a call that returns \<open>None\<close> for every bound does not end.
\<close>

type_synonym exec = "string list \<Rightarrow> shell \<Rightarrow> outcome option"

definition execute_history_command :: "exec \<Rightarrow> int \<Rightarrow> shell \<Rightarrow> outcome option" where
  "execute_history_command exec number s =
     (if number \<le> 0 \<or> number > count (history s) then Some (Returns 1 s)
      else
        (case commands (history s) ! slot (history s) (count (history s) - number) of
           None \<Rightarrow> Some (Returns 1 s)
         | Some command \<Rightarrow>
             let args = parse_line s command in
             if args \<noteq> [] then
               (case exec args s of
                  None \<Rightarrow> None
                | Some (Returns st s') \<Rightarrow> Some (Returns 1 s')
                | Some other \<Rightarrow> Some other)
             else Some (Returns 1 s)))"

definition wsh_history_cmd :: "exec \<Rightarrow> string list \<Rightarrow> shell \<Rightarrow> outcome option" where
  "wsh_history_cmd exec args s =
     (case arg args 1 of
        None \<Rightarrow> Some (Returns 1 (emit (show_history (history s)) s))
      | Some a1 \<Rightarrow>
          if a1 = ''set'' then
            (case arg args 2 of
               None \<Rightarrow>
                 Some (Returns 1 (emit [Eprintf ''wsh: history set requires a number\<newline>'' []] s))
             | Some a2 \<Rightarrow>
                 let new_capacity = atoi a2 in
                 if new_capacity \<le> 0 then
                   Some (Returns 1
                     (emit [Eprintf ''wsh: history set requires a positive integer\<newline>'' []] s))
                 else Some (Returns 1 (set_history_capacity new_capacity s)))
          else
            (let num = atoi a1 in
             if num > 0 then execute_history_command exec num s else Some (Returns 1 s)))"

text \<open>The table \<open>builtin_func\<close>, by index.\<close>

definition builtin_func :: "nat \<Rightarrow> exec \<Rightarrow> os \<Rightarrow> string list \<Rightarrow> shell \<Rightarrow> outcome option" where
  "builtin_func i exec w args s =
     (if i = 0 then Some (wsh_cd w args s)
      else if i = 1 then Some (wsh_exit_cmd args s)
      else if i = 2 then Some (wsh_export args s)
      else if i = 3 then Some (wsh_local_cmd args s)
      else if i = 4 then Some (wsh_vars args s)
      else if i = 5 then wsh_history_cmd exec args s
      else wsh_ls w args s)"

text \<open>
  The part of \<open>execute_command\<close> after the replay test: the built-in table, then the
  recording of the rejoined arguments and the launch of an external program.
\<close>

definition dispatch_command :: "exec \<Rightarrow> os \<Rightarrow> string list \<Rightarrow> shell \<Rightarrow> outcome option" where
  "dispatch_command exec w args s =
     (case find_builtin (hd args) builtin_str 0 of
        Some i \<Rightarrow> builtin_func i exec w args s
      | None \<Rightarrow>
          let command_str = join_args args in
          launch_process w args (s\<lparr>history := add_history command_str (history s)\<rparr>))"

definition execute_body :: "exec \<Rightarrow> os \<Rightarrow> string list \<Rightarrow> shell \<Rightarrow> outcome option" where
  "execute_body exec w args s =
     (case args of
        [] \<Rightarrow> Some (Returns 1 s)
      | a0 # _ \<Rightarrow>
          if a0 = ''history'' then
            (case arg args 1 of
               None \<Rightarrow> dispatch_command exec w args s
             | Some a1 \<Rightarrow>
                 let num = atoi a1 in
                 if num > 0 then execute_history_command exec num s
                 else dispatch_command exec w args s)
          else dispatch_command exec w args s)"

fun execute_command :: "nat \<Rightarrow> os \<Rightarrow> string list \<Rightarrow> shell \<Rightarrow> outcome option" where
  "execute_command 0 w args s = execute_body (\<lambda>args s. None) w args s"
| "execute_command (Suc n) w args s = execute_body (execute_command n w) w args s"

section \<open>The read-eval loop of \<open>main\<close>\<close>

definition display_prompt :: "shell \<Rightarrow> shell" where
  "display_prompt s = emit [Printf ''wsh> '' []] s"

text \<open>
  One pass of the loop body on a line that \<open>read_line\<close> returned: skip blanks and tabs,
  ignore comments and empty lines, record the line without its final newline, then parse
  and execute it.
\<close>

definition main_iteration :: "nat \<Rightarrow> os \<Rightarrow> string \<Rightarrow> shell \<Rightarrow> outcome option" where
  "main_iteration n w line s =
     (let trimmed = dropWhile (\<lambda>c. c = CHR '' '' \<or> c = CHR 0x09) line in
      if trimmed = [] \<or> hd trimmed = CHR ''#'' \<or> hd trimmed = CHR 0x0A then Some (Returns 1 s)
      else
        let line_copy = (if last trimmed = CHR 0x0A then butlast trimmed else trimmed);
            s1 = s\<lparr>history := add_history line_copy (history s)\<rparr>;
            args = parse_line s1 trimmed
        in execute_command n w args s1)"

text \<open>
  The loop over the lines of the input, each with what the operating system answers while
  it runs. At the end of the input, or on a zero status, the shell cleans up and \<open>main\<close>
  returns \<open>EXIT_SUCCESS\<close>.
\<close>

fun main_loop :: "nat \<Rightarrow> bool \<Rightarrow> (os \<times> string) list \<Rightarrow> shell \<Rightarrow> outcome option" where
  "main_loop n interactive [] s =
     Some (Exits EXIT_SUCCESS (cleanup_shell (if interactive then display_prompt s else s)))"
| "main_loop n interactive ((w, line) # rest) s =
     (case main_iteration n w line (if interactive then display_prompt s else s) of
        Some (Returns status s') \<Rightarrow>
          if status \<noteq> 0 then main_loop n interactive rest s'
          else Some (Exits EXIT_SUCCESS (cleanup_shell s'))
      | other \<Rightarrow> other)"

section \<open>Notions used in the statements\<close>

text \<open>
  A redirection token: it begins with \<open>>\<close>, \<open><\<close> or \<open>&>\<close> (and so also when it begins with
  \<open>>>\<close> or \<open>&>>\<close>).
\<close>

definition is_redirection_token :: "string \<Rightarrow> bool" where
  "is_redirection_token a = (take 1 a = ''>'' \<or> take 1 a = ''<'' \<or> take 2 a = ''&>'')"

text \<open>
  A well-formed ring: a positive capacity, an array of that many slots, \<open>start\<close> and
  \<open>count\<close> within their bounds, and a stored string in each of the \<open>count\<close> slots from
  \<open>start\<close> on.
\<close>

definition hist_inv :: "History \<Rightarrow> bool" where
  "hist_inv h =
     (0 < capacity h \<and> length (commands h) = nat (capacity h) \<and>
      0 \<le> start h \<and> start h < capacity h \<and> 0 \<le> count h \<and> count h \<le> capacity h \<and>
      (\<forall>k. 0 \<le> k \<and> k < count h \<longrightarrow> commands h ! slot h k \<noteq> None))"

text \<open>The entries of the ring in their logical order, the oldest first.\<close>

definition hist_lines :: "History \<Rightarrow> string list" where
  "hist_lines h = map (\<lambda>i. show_str (commands h ! slot h (int i))) [0..<nat (count h)]"

text \<open>
  The rules of the history as the specification words them, on the list of entries: a
  built-in name is not recorded, a line equal to the most recent entry is not added again,
  and a full ring gives up its oldest entry. \<open>add_history\<close> is compared with it below.
\<close>

definition spec_record :: "int \<Rightarrow> string \<Rightarrow> string list \<Rightarrow> string list" where
  "spec_record cap command entries =
     (if command \<in> set builtin_str then entries
      else if entries \<noteq> [] \<and> last entries = command then entries
      else if int (length entries) < cap then entries @ [command]
      else tl entries @ [command])"

text \<open>
  How a call can end in the shell process: it returns the status 1, or the process exits
  with success after \<open>cleanup_shell\<close> has released the variables and the history.
  \<open>status_ok\<close> is the part of it that holds in a child as well.
\<close>

definition status_ok :: "outcome \<Rightarrow> bool" where
  "status_ok r = (case r of Returns st s' \<Rightarrow> st = 1 | _ \<Rightarrow> True)"

definition shell_result :: "outcome \<Rightarrow> bool" where
  "shell_result r =
     (case r of
        Returns st s' \<Rightarrow> st = 1
      | Exits c s' \<Rightarrow> c = EXIT_SUCCESS \<and> var_head s' = [] \<and> commands (history s') = []
      | _ \<Rightarrow> False)"

text \<open>
  The test at the head of \<open>execute_command\<close>: \<open>history\<close> followed by an argument that
  \<open>atoi\<close> reads as a positive number.
\<close>

definition replay_request :: "string list \<Rightarrow> bool" where
  "replay_request args =
     (args \<noteq> [] \<and> hd args = ''history'' \<and>
      (case arg args 1 of None \<Rightarrow> False | Some a1 \<Rightarrow> atoi a1 > 0))"

text \<open>
  The invariant of the shell state, and what it asks of an outcome: the state a call
  returns with satisfies it.
\<close>

definition shell_inv :: "shell \<Rightarrow> bool" where
  "shell_inv s =
     (hist_inv (history s) \<and> distinct_adj (hist_lines (history s)) \<and>
      distinct (map fst (var_head s)))"

definition inv_result :: "outcome \<Rightarrow> bool" where
  "inv_result r = (case r of Returns st s' \<Rightarrow> shell_inv s' | _ \<Rightarrow> True)"

text \<open>
  Concrete inputs for the statements below. \<open>sample_os\<close>: the shell process, whose child
  is first reported stopped and then exited with status 1. \<open>sample_shell\<close>: the state of
  a shell started with an empty environment after the lines \<open>$X\<close> and \<open>local X=exit\<close>,
  at the moment \<open>main\<close> has recorded the line \<open>history 4\<close>.
\<close>

definition sample_os :: os where
  "sample_os =
     \<lparr>fork_pid = 4242, waits = [W_stopped 19, W_exited 1], sys_fails = (\<lambda>_. False),
      x_ok = (\<lambda>p. p = ''/bin/echo''), execv_ok = (\<lambda>_. True), chdir_ok = (\<lambda>_. False)\<rparr>"

definition sample_shell :: shell where
  "sample_shell =
     \<lparr>env = [''PATH'' \<mapsto> ''/bin''], var_head = [(''X'', ''exit'')],
      history =
        \<lparr>commands = [Some ''$X'', Some [], Some ''local X=exit'', Some ''history 4'', None],
         capacity = 5, count = 4, start = 0\<rparr>,
      trace = []\<rparr>"

text \<open>
  The append of a ring of capacity \<open>cap\<close>, on the list of its entries: the new text goes
  to the end, and a full ring first gives up its oldest entry.
\<close>

definition ring_append :: "int \<Rightarrow> string \<Rightarrow> string list \<Rightarrow> string list" where
  "ring_append cap command entries =
     (if int (length entries) < cap then entries @ [command] else tl entries @ [command])"

text \<open>
  Two more states for the statements about what a line records. \<open>once_shell\<close>: the initial
  shell with the one entry \<open>echo a\<close> in its history. \<open>full_shell\<close>: the initial shell with
  a ring of capacity 1 that holds \<open>echo a\<close>, so that the ring is full.
\<close>

definition once_shell :: shell where
  "once_shell =
     (initialize_shell Map.empty)
       \<lparr>history :=
          \<lparr>commands = [Some ''echo a'', None, None, None, None], capacity = 5, count = 1,
           start = 0\<rparr>\<rparr>"

definition full_shell :: shell where
  "full_shell =
     (initialize_shell Map.empty)
       \<lparr>history := \<lparr>commands = [Some ''echo a''], capacity = 1, count = 1, start = 0\<rparr>\<rparr>"

section \<open>Properties\<close>

subsection \<open>Tokenizer and substitution\<close>

lemma parse_loop_map:
  "parse_loop s tokens str =
     tokens @ map (handle_variable_substitution s) (strtok_all DELIMITERS str)"
proof (induction s tokens str rule: parse_loop.induct)
  case (1 s tokens str)
  show ?case
  proof (cases "strtok DELIMITERS str")
    case None
    have "parse_loop s tokens str = tokens"
      by (subst parse_loop.simps) (simp add: None)
    moreover have "strtok_all DELIMITERS str = []"
      by (subst strtok_all.simps) (simp add: None)
    ultimately show ?thesis by simp
  next
    case (Some p)
    obtain tok rest where p: "p = (tok, rest)" by (cases p)
    have "parse_loop s tokens str =
        parse_loop s (tokens @ [handle_variable_substitution s tok]) rest"
      by (subst parse_loop.simps) (simp add: Some p)
    moreover have "strtok_all DELIMITERS str = tok # strtok_all DELIMITERS rest"
      by (subst strtok_all.simps) (simp add: Some p)
    moreover have "parse_loop s (tokens @ [handle_variable_substitution s tok]) rest =
        (tokens @ [handle_variable_substitution s tok])
          @ map (handle_variable_substitution s) (strtok_all DELIMITERS rest)"
      using Some p by (intro 1) simp_all
    ultimately show ?thesis by simp
  qed
qed

lemma strtok_all_Nil [simp]: "strtok_all delim [] = []"
  by (subst strtok_all.simps) (simp add: strtok_def)

lemma strtok_all_Cons:
  "strtok_all delim (c # cs) =
     (if c \<in> set delim then strtok_all delim cs
      else takeWhile (\<lambda>c. c \<notin> set delim) (c # cs)
             # strtok_all delim (drop 1 (dropWhile (\<lambda>c. c \<notin> set delim) (c # cs))))"
proof (cases "c \<in> set delim")
  case True
  then have "strtok delim (c # cs) = strtok delim cs" by (simp add: strtok_def)
  then have "strtok_all delim (c # cs) = strtok_all delim cs"
    by (subst strtok_all.simps, subst (2) strtok_all.simps) simp
  with True show ?thesis by simp
next
  case False
  then have "strtok delim (c # cs) =
      Some (takeWhile (\<lambda>c. c \<notin> set delim) (c # cs),
            drop 1 (dropWhile (\<lambda>c. c \<notin> set delim) (c # cs)))"
    by (simp add: strtok_def)
  then have "strtok_all delim (c # cs) =
      takeWhile (\<lambda>c. c \<notin> set delim) (c # cs)
        # strtok_all delim (drop 1 (dropWhile (\<lambda>c. c \<notin> set delim) (c # cs)))"
    by (subst strtok_all.simps) simp
  with False show ?thesis by simp
qed

lemma handle_variable_substitution_history [simp]:
  "handle_variable_substitution (s\<lparr>history := h\<rparr>) = handle_variable_substitution s"
  by (rule ext)
    (simp add: handle_variable_substitution_def getenv_def split: list.splits option.splits)

lemma parse_line_history [simp]: "parse_line (s\<lparr>history := h\<rparr>) line = parse_line s line"
  by (simp add: parse_line_def parse_loop_map)

text \<open>
  The search of the variable list returns the value of the first node that carries the
  name: it is \<open>map_of\<close> on the list of the nodes.
\<close>

lemma lookup_var_map_of: "lookup_var vs name = map_of vs name"
  by (induction vs) auto

text \<open>
  Claim C7. Every token of the line is substituted on its own: a token that starts with
  \<open>$\<close> is replaced by the value that the rest of the token names, which is the value the
  environment gives to that name and, when the environment has none, the value of the
  first node of the variable list with that name, and by the empty string when neither
  has it; every other token is copied as it is. The empty result stays in the vector: the
  argument count is the number of tokens.
\<close>

theorem C7_substitution_per_token:
  "parse_line s line =
     map (\<lambda>token.
            if take 1 token = ''$'' then
              (case env s (drop 1 token) of
                 Some v \<Rightarrow> v
               | None \<Rightarrow> (case map_of (var_head s) (drop 1 token) of Some v \<Rightarrow> v | None \<Rightarrow> ''''))
            else token)
         (strtok_all DELIMITERS line)
   \<and> length (parse_line s line) = length (strtok_all DELIMITERS line)"
proof -
  have "handle_variable_substitution s = (\<lambda>token.
            if take 1 token = ''$'' then
              (case env s (drop 1 token) of
                 Some v \<Rightarrow> v
               | None \<Rightarrow> (case map_of (var_head s) (drop 1 token) of Some v \<Rightarrow> v | None \<Rightarrow> ''''))
            else token)"
    by (rule ext)
      (simp add: handle_variable_substitution_def getenv_def lookup_var_map_of
        split: list.splits cong: option.case_cong)
  then show ?thesis
    by (simp add: parse_line_def parse_loop_map)
qed

text \<open>
  Claim C7 on a concrete line, in the state \<open>sample_shell\<close> (the environment holds
  \<open>PATH=/bin\<close>, the variable list \<open>X=exit\<close>): \<open>$X\<close> is read from the variable list,
  \<open>$PATH\<close> from the environment, \<open>$Y\<close> is unknown and stays as an empty argument,
  \<open>a$X\<close> is copied.
\<close>

theorem C7_witness:
  "parse_line sample_shell ''echo $X  $PATH $Y a$X\<newline>'' =
     [''echo'', ''exit'', ''/bin'', [], ''a$X'']"
proof -
  have t: "strtok_all DELIMITERS ''echo $X  $PATH $Y a$X\<newline>'' =
      [''echo'', ''$X'', ''$PATH'', ''$Y'', ''a$X'']"
    by (simp add: strtok_all_Cons DELIMITERS_def)
  show ?thesis
    using C7_substitution_per_token [of sample_shell "''echo $X  $PATH $Y a$X\<newline>''"]
    unfolding t by (simp add: sample_shell_def)
qed

text \<open>
  Claim C10. The name looked up is the whole remainder of the token after the leading
  \<open>$\<close>: for a token \<open>$x/suffix\<close> it is \<open>x/suffix\<close>, never the prefix \<open>x\<close>. A token that does
  not start with \<open>$\<close> is copied unchanged, wherever else a \<open>$\<close> stands in it.
\<close>

theorem C10_whole_remainder_is_name:
  "handle_variable_substitution s (CHR ''$'' # x @ ''/'' @ suffix) =
     (case getenv s (x @ ''/'' @ suffix) of
        Some v \<Rightarrow> v
      | None \<Rightarrow> (case lookup_var (var_head s) (x @ ''/'' @ suffix) of Some v \<Rightarrow> v | None \<Rightarrow> ''''))
   \<and> (take 1 token \<noteq> ''$'' \<longrightarrow> handle_variable_substitution s token = token)"
  by (simp add: handle_variable_substitution_def split: list.splits cong: option.case_cong)

text \<open>
  Claim C10, at a concrete state: \<open>X\<close> is set to \<open>exit\<close>, yet \<open>$X/suffix\<close> yields the empty
  string, and \<open>a$X\<close> is copied.
\<close>

theorem C10_witness:
  "handle_variable_substitution sample_shell ''$X'' = ''exit'' \<and>
   handle_variable_substitution sample_shell ''$X/suffix'' = [] \<and>
   take 1 ''a$X'' \<noteq> ''$'' \<and>
   handle_variable_substitution sample_shell ''a$X'' = ''a$X''"
proof -
  have a: "handle_variable_substitution sample_shell ''$X'' = ''exit''"
    by (simp add: handle_variable_substitution_def getenv_def sample_shell_def)
  have b: "getenv sample_shell ''X/suffix'' = None \<and>
      lookup_var (var_head sample_shell) ''X/suffix'' = None"
    by (simp add: getenv_def sample_shell_def)
  have c: "take 1 ''a$X'' \<noteq> ''$''" by simp
  show ?thesis
    using C10_whole_remainder_is_name [of sample_shell "''X''" "''suffix''" "''a$X''"] a b c
    by simp
qed

subsection \<open>Redirection\<close>

declare scan_redirection.simps [simp del]

lemma take_shorter_prefix: "take n a = p \<Longrightarrow> m \<le> n \<Longrightarrow> take m a = take m p"
  by (metis min.absorb1 take_take)

lemma is_redirection_token_tests:
  "is_redirection_token a \<longleftrightarrow>
     (strncmp_is_0 a ''>>'' 2 \<or> strncmp_is_0 a ''>'' 1 \<or> strncmp_is_0 a ''<'' 1 \<or>
      strncmp_is_0 a ''&>'' 2 \<or> strncmp_is_0 a ''&>>'' 3)"
proof -
  have a: "take 2 a = ''>>'' \<Longrightarrow> take 1 a = ''>''"
    using take_shorter_prefix [of 2 a "''>>''" 1] by simp
  have b: "take 3 a = ''&>>'' \<Longrightarrow> take 2 a = ''&>''"
    using take_shorter_prefix [of 3 a "''&>>''" 2] by simp
  show ?thesis
    using a b by (auto simp: is_redirection_token_def strncmp_is_0_def)
qed

text \<open>
  Claim C1 says that a token beginning with \<open>&>>\<close> gives the rest of the token after these
  three characters as output path, with append and stderr merge set. The code tests \<open>>>\<close>,
  \<open>>\<close>, \<open><\<close>, \<open>&>\<close> and only then \<open>&>>\<close>, so the branch for \<open>&>>\<close> is never reached: on
  \<open>cmd &>>log.txt\<close> the output path is \<open>>log.txt\<close>, append is not set, and the file is
  truncated.
\<close>

theorem C1_append_merge_misparsed:
  "parse_redirection [''cmd'', ''&>>log.txt''] =
     (0, [''cmd''],
      \<lparr>input_path = None, output_path = Some ''>log.txt'', append_flag = False,
       redirect_stderr = True\<rparr>)"
  by (simp add: parse_redirection_def scan_redirection.simps strncmp_is_0_def no_redirection_def)

text \<open>
  The same for every token that begins with \<open>&>>\<close>.
\<close>

lemma amp_append_token_misparsed:
  "scan_redirection ((''&>>'' @ path) # rest) =
     ([], no_redirection\<lparr>output_path := Some (''>'' @ path), redirect_stderr := True\<rparr>)"
  by (simp add: scan_redirection.simps strncmp_is_0_def)

lemma scan_redirection_no_token:
  "\<forall>a \<in> set pre. \<not> is_redirection_token a \<Longrightarrow>
     scan_redirection (pre @ rest) =
       (pre @ fst (scan_redirection rest), snd (scan_redirection rest))"
  by (induction pre) (simp_all add: scan_redirection.simps is_redirection_token_tests split: prod.splits)

lemma scan_redirection_token:
  assumes "is_redirection_token t"
  shows "scan_redirection (t # post) = ([], snd (scan_redirection [t]))"
proof -
  consider "strncmp_is_0 t ''>>'' 2"
    | "\<not> strncmp_is_0 t ''>>'' 2" "strncmp_is_0 t ''>'' 1"
    | "\<not> strncmp_is_0 t ''>>'' 2" "\<not> strncmp_is_0 t ''>'' 1" "strncmp_is_0 t ''<'' 1"
    | "\<not> strncmp_is_0 t ''>>'' 2" "\<not> strncmp_is_0 t ''>'' 1" "\<not> strncmp_is_0 t ''<'' 1"
      "strncmp_is_0 t ''&>'' 2"
    | "\<not> strncmp_is_0 t ''>>'' 2" "\<not> strncmp_is_0 t ''>'' 1" "\<not> strncmp_is_0 t ''<'' 1"
      "\<not> strncmp_is_0 t ''&>'' 2" "strncmp_is_0 t ''&>>'' 3"
    using assms unfolding is_redirection_token_tests by blast
  then show ?thesis by cases (simp_all add: scan_redirection.simps)
qed

text \<open>
  Claim C2, as the code has it. Only the first redirection token from the left takes
  effect, and the argument vector is cut at that token: the executed vector is exactly the
  tokens before it, and every later token is dropped from the executed arguments. The
  path is the remainder of that same token after its operator: after \<open>>>\<close> it is the
  output path, opened for appending; after \<open>>\<close> it is the output path; after \<open><\<close> it
  is the input path; after \<open>&>\<close> it is the output path, with the standard error merged.
  (The cases of \<open>>\<close> and \<open>&>\<close> are stated for a remainder that does not itself start
  with \<open>>\<close>: a token that starts with \<open>>>\<close> is the first case, and a token that starts
  with \<open>&>>\<close> is the subject of claim C1.)
\<close>

theorem C2_first_redirection_only:
  assumes "\<forall>a \<in> set pre. \<not> is_redirection_token a"
  shows "(is_redirection_token t \<longrightarrow>
            parse_redirection (pre @ t # post) = (0, pre, snd (snd (parse_redirection [t]))))
       \<and> parse_redirection (pre @ (''>>'' @ path) # post) =
            (0, pre, \<lparr>input_path = None, output_path = Some path, append_flag = True,
                      redirect_stderr = False\<rparr>)
       \<and> (take 1 path \<noteq> ''>'' \<longrightarrow>
            parse_redirection (pre @ (''>'' @ path) # post) =
              (0, pre, \<lparr>input_path = None, output_path = Some path, append_flag = False,
                        redirect_stderr = False\<rparr>))
       \<and> parse_redirection (pre @ (''<'' @ path) # post) =
            (0, pre, \<lparr>input_path = Some path, output_path = None, append_flag = False,
                      redirect_stderr = False\<rparr>)
       \<and> (take 1 path \<noteq> ''>'' \<longrightarrow>
            parse_redirection (pre @ (''&>'' @ path) # post) =
              (0, pre, \<lparr>input_path = None, output_path = Some path, append_flag = False,
                        redirect_stderr = True\<rparr>))"
proof -
  have cut: "scan_redirection (pre @ t # post) = (pre, snd (scan_redirection [t]))"
    if "is_redirection_token t" for t
    using scan_redirection_no_token [OF assms, of "t # post"] scan_redirection_token [OF that, of post]
    by simp
  have c1: "is_redirection_token t \<longrightarrow>
      parse_redirection (pre @ t # post) = (0, pre, snd (snd (parse_redirection [t])))"
    using cut by (simp add: parse_redirection_def split: prod.splits)
  have t1: "is_redirection_token (''>>'' @ path)" "is_redirection_token (''>'' @ path)"
    "is_redirection_token (''<'' @ path)" "is_redirection_token (''&>'' @ path)"
    by (simp_all add: is_redirection_token_def)
  have i1: "snd (scan_redirection [''>>'' @ path]) =
      \<lparr>input_path = None, output_path = Some path, append_flag = True, redirect_stderr = False\<rparr>"
    by (simp add: scan_redirection.simps strncmp_is_0_def no_redirection_def)
  have i2: "take 1 path \<noteq> ''>'' \<Longrightarrow> snd (scan_redirection [''>'' @ path]) =
      \<lparr>input_path = None, output_path = Some path, append_flag = False, redirect_stderr = False\<rparr>"
    by (cases path) (simp_all add: scan_redirection.simps strncmp_is_0_def no_redirection_def)
  have i3: "snd (scan_redirection [''<'' @ path]) =
      \<lparr>input_path = Some path, output_path = None, append_flag = False, redirect_stderr = False\<rparr>"
    by (simp add: scan_redirection.simps strncmp_is_0_def no_redirection_def)
  have i4: "take 1 path \<noteq> ''>'' \<Longrightarrow> snd (scan_redirection [''&>'' @ path]) =
      \<lparr>input_path = None, output_path = Some path, append_flag = False, redirect_stderr = True\<rparr>"
    by (simp add: scan_redirection.simps strncmp_is_0_def no_redirection_def)
  show ?thesis
    using c1 cut [OF t1(1)] cut [OF t1(2)] cut [OF t1(3)] cut [OF t1(4)] i1 i2 i3 i4
    by (simp add: parse_redirection_def)
qed

text \<open>
  Claim C2 on concrete vectors, one for each operator: the vector left is \<open>[cmd]\<close> every
  time, whatever follows the redirection token, and the path is the rest of that token,
  \<open>out.txt\<close> for \<open>>out.txt\<close> and the empty string for the token \<open>>\<close> of
  \<open>cmd > out.txt extra\<close>.
\<close>

theorem C2_witness:
  "\<not> is_redirection_token ''cmd'' \<and> is_redirection_token ''>out.txt'' \<and>
   take 1 ''out.txt'' \<noteq> ''>'' \<and>
   parse_redirection [''cmd'', ''>out.txt'', ''extra'', ''<in''] =
     (0, [''cmd''],
      \<lparr>input_path = None, output_path = Some ''out.txt'', append_flag = False,
       redirect_stderr = False\<rparr>) \<and>
   parse_redirection [''cmd'', ''>'', ''out.txt'', ''extra''] =
     (0, [''cmd''],
      \<lparr>input_path = None, output_path = Some [], append_flag = False,
       redirect_stderr = False\<rparr>) \<and>
   parse_redirection [''cmd'', ''>>log'', ''>other''] =
     (0, [''cmd''],
      \<lparr>input_path = None, output_path = Some ''log'', append_flag = True,
       redirect_stderr = False\<rparr>) \<and>
   parse_redirection [''cmd'', ''<in.txt'', ''>out''] =
     (0, [''cmd''],
      \<lparr>input_path = Some ''in.txt'', output_path = None, append_flag = False,
       redirect_stderr = False\<rparr>) \<and>
   parse_redirection [''cmd'', ''&>all.txt'', ''x''] =
     (0, [''cmd''],
      \<lparr>input_path = None, output_path = Some ''all.txt'', append_flag = False,
       redirect_stderr = True\<rparr>)"
proof -
  have h1: "\<not> is_redirection_token ''cmd''" by (simp add: is_redirection_token_def)
  then have h: "\<forall>a \<in> set [''cmd'']. \<not> is_redirection_token a" by simp
  have h2: "is_redirection_token ''>out.txt''" by (simp add: is_redirection_token_def)
  have p1: "take 1 ''out.txt'' \<noteq> ''>''" and p2: "take 1 ([] :: string) \<noteq> ''>''"
    and p3: "take 1 ''all.txt'' \<noteq> ''>''" by simp_all
  have m: "take 1 ''out.txt'' \<noteq> ''>'' \<and>
     parse_redirection [''cmd'', ''>out.txt'', ''extra'', ''<in''] =
       (0, [''cmd''],
        \<lparr>input_path = None, output_path = Some ''out.txt'', append_flag = False,
         redirect_stderr = False\<rparr>) \<and>
     parse_redirection [''cmd'', ''>'', ''out.txt'', ''extra''] =
       (0, [''cmd''],
        \<lparr>input_path = None, output_path = Some [], append_flag = False,
         redirect_stderr = False\<rparr>) \<and>
     parse_redirection [''cmd'', ''>>log'', ''>other''] =
       (0, [''cmd''],
        \<lparr>input_path = None, output_path = Some ''log'', append_flag = True,
         redirect_stderr = False\<rparr>) \<and>
     parse_redirection [''cmd'', ''<in.txt'', ''>out''] =
       (0, [''cmd''],
        \<lparr>input_path = Some ''in.txt'', output_path = None, append_flag = False,
         redirect_stderr = False\<rparr>) \<and>
     parse_redirection [''cmd'', ''&>all.txt'', ''x''] =
       (0, [''cmd''],
        \<lparr>input_path = None, output_path = Some ''all.txt'', append_flag = False,
         redirect_stderr = True\<rparr>)"
    using C2_first_redirection_only [OF h, of "''>out.txt''" "[''extra'', ''<in'']" "''out.txt''"]
      C2_first_redirection_only [OF h, of "''>''" "[''out.txt'', ''extra'']" "[]"]
      C2_first_redirection_only [OF h, of "''>>log''" "[''>other'']" "''log''"]
      C2_first_redirection_only [OF h, of "''<in.txt''" "[''>out'']" "''in.txt''"]
      C2_first_redirection_only [OF h, of "''&>all.txt''" "[''x'']" "''all.txt''"]
      p1 p2 p3
    by simp
  from h1 h2 m show ?thesis by simp
qed

lemma parse_line_example:
  "parse_line s ''cmd > out.txt extra'' = [''cmd'', ''>'', ''out.txt'', ''extra'']"
  by (simp add: parse_line_def parse_loop_map strtok_all_Cons DELIMITERS_def
      handle_variable_substitution_def)

text \<open>
  Claim C2 as it was stated fails: on the line \<open>cmd > out.txt extra\<close> the executed vector
  is \<open>[cmd]\<close>, not \<open>[cmd, extra]\<close>.
\<close>

theorem C2_counterexample:
  "fst (snd (parse_redirection (parse_line (initialize_shell Map.empty) ''cmd > out.txt extra'')))
     = [''cmd''] \<and>
   fst (snd (parse_redirection (parse_line (initialize_shell Map.empty) ''cmd > out.txt extra'')))
     \<noteq> [''cmd'', ''extra'']"
  by (simp add: parse_line_example parse_redirection_def scan_redirection.simps strncmp_is_0_def)

subsection \<open>The variable list\<close>






lemma names_update_var:
  "map fst (update_var name v vs) =
     (if name \<in> set (map fst vs) then map fst vs else map fst vs @ [name])"
  by (induction vs) force+

lemma distinct_update_var:
  "distinct (map fst vs) \<Longrightarrow> distinct (map fst (update_var name v vs))"
  by (simp add: names_update_var)




subsection \<open>The history ring\<close>

lemma slot_less: "hist_inv h \<Longrightarrow> slot h k < length (commands h)"
  by (simp add: hist_inv_def slot_def nat_less_iff)

lemma slot_inj:
  assumes "hist_inv h" "0 \<le> a" "a < capacity h" "0 \<le> b" "b < capacity h" "slot h a = slot h b"
  shows "a = b"
proof -
  have c: "0 < capacity h" using assms(1) by (simp add: hist_inv_def)
  have "(start h + a) mod capacity h = (start h + b) mod capacity h"
    using assms(6) c by (simp add: slot_def nat_eq_iff)
  then have "capacity h dvd (start h + a) - (start h + b)"
    by (simp add: mod_eq_dvd_iff)
  then have d: "capacity h dvd a - b" by simp
  show ?thesis
  proof (rule ccontr)
    assume "a \<noteq> b"
    then have "a - b \<noteq> 0" by simp
    then have "\<bar>capacity h\<bar> \<le> \<bar>a - b\<bar>" using d by (rule dvd_imp_le_int)
    with assms c show False by linarith
  qed
qed

lemma find_builtin_None: "find_builtin name bs i = None \<longleftrightarrow> name \<notin> set bs"
  by (induction bs arbitrary: i) auto

lemma slot_start: "hist_inv h \<Longrightarrow> slot h 0 = nat (start h)"
  by (simp add: hist_inv_def slot_def)

lemma slot_wrap: "hist_inv h \<Longrightarrow> slot h (capacity h) = nat (start h)"
  by (simp add: hist_inv_def slot_def)

lemma add_history_inv:
  assumes "hist_inv h"
  shows "hist_inv (add_history command h)"
proof -
  have c: "0 < capacity h" using assms by (simp add: hist_inv_def)
  show ?thesis
  proof (cases "find_builtin command builtin_str 0 \<noteq> None \<or>
                (count h > 0 \<and> commands h ! slot h (count h - 1) = Some command)")
    case True
    then show ?thesis using assms c by (auto simp: add_history_def)
  next
    case False
    show ?thesis
    proof (cases "count h < capacity h")
      case True
      have eq: "add_history command h =
          h\<lparr>commands := (commands h)[slot h (count h) := Some command], count := count h + 1\<rparr>"
        using False True c by (auto simp: add_history_def)
      have "\<And>k. 0 \<le> k \<Longrightarrow> k < count h + 1 \<Longrightarrow>
              (commands h)[slot h (count h) := Some command] ! slot h k \<noteq> None"
      proof -
        fix k assume k: "0 \<le> k" "k < count h + 1"
        show "(commands h)[slot h (count h) := Some command] ! slot h k \<noteq> None"
        proof (cases "k = count h")
          case True
          then show ?thesis using slot_less [OF assms] by simp
        next
          case False
          then have "slot h k \<noteq> slot h (count h)"
            using slot_inj [OF assms, of k "count h"] k \<open>count h < capacity h\<close> assms
            by (auto simp: hist_inv_def)
          moreover have "commands h ! slot h k \<noteq> None"
            using assms k False by (simp add: hist_inv_def)
          ultimately show ?thesis by simp
        qed
      qed
      then show ?thesis
        using assms True unfolding eq by (simp add: hist_inv_def slot_def)
    next
      case nf: False
      have eq: "add_history command h =
          h\<lparr>commands := (commands h)[nat (start h) := Some command],
            start := (start h + 1) mod capacity h\<rparr>"
        using False nf c by (auto simp: add_history_def)
      let ?h' = "h\<lparr>commands := (commands h)[nat (start h) := Some command],
            start := (start h + 1) mod capacity h\<rparr>"
      have full: "count h = capacity h" using nf assms by (simp add: hist_inv_def)
      have "\<And>k. 0 \<le> k \<Longrightarrow> k < count h \<Longrightarrow>
              (commands h)[nat (start h) := Some command] ! slot ?h' k \<noteq> None"
      proof -
        fix k assume k: "0 \<le> k" "k < count h"
        have "((start h + 1) mod capacity h + k) mod capacity h
                = (start h + 1 + k) mod capacity h"
          by (rule mod_add_left_eq)
        then have s: "slot ?h' k = slot h (k + 1)"
          by (simp add: slot_def add.assoc add.commute [of 1 k])
        show "(commands h)[nat (start h) := Some command] ! slot ?h' k \<noteq> None"
        proof (cases "k + 1 = capacity h")
          case True
          then have "slot h (k + 1) = nat (start h)" using slot_wrap [OF assms] by simp
          then show ?thesis using s slot_less [OF assms, of "k + 1"] by simp
        next
          case False
          then have "slot h (k + 1) \<noteq> slot h 0"
            using slot_inj [OF assms, of "k + 1" 0] k full c by auto
          then have "slot h (k + 1) \<noteq> nat (start h)" using slot_start [OF assms] by simp
          moreover have "commands h ! slot h (k + 1) \<noteq> None"
            using assms k False full by (simp add: hist_inv_def)
          ultimately show ?thesis using s by simp
        qed
      qed
      then show ?thesis
        using assms c unfolding eq by (simp add: hist_inv_def)
    qed
  qed
qed

lemma length_hist_lines [simp]: "length (hist_lines h) = nat (count h)"
  by (simp add: hist_lines_def)

lemma nth_hist_lines:
  "i < nat (count h) \<Longrightarrow> hist_lines h ! i = show_str (commands h ! slot h (int i))"
  by (simp add: hist_lines_def)

lemma show_str_eq: "p \<noteq> None \<Longrightarrow> show_str p = c \<longleftrightarrow> p = Some c"
  by (cases p) (simp_all add: show_str_def)

lemma last_hist_lines:
  assumes "hist_inv h" "0 < count h"
  shows "last (hist_lines h) = command \<longleftrightarrow> commands h ! slot h (count h - 1) = Some command"
proof -
  have ne: "hist_lines h \<noteq> []" using assms(2) by (simp add: hist_lines_def)
  have "last (hist_lines h) = hist_lines h ! (nat (count h) - 1)"
    using ne by (simp add: last_conv_nth)
  also have "\<dots> = show_str (commands h ! slot h (int (nat (count h) - 1)))"
    using assms(2) by (intro nth_hist_lines) simp
  also have "int (nat (count h) - 1) = count h - 1" using assms(2) by simp
  finally have "last (hist_lines h) = show_str (commands h ! slot h (count h - 1))" .
  moreover have "commands h ! slot h (count h - 1) \<noteq> None"
    using assms by (simp add: hist_inv_def)
  ultimately show ?thesis by (simp add: show_str_eq)
qed

lemma add_history_lines:
  assumes "hist_inv h"
  shows "hist_lines (add_history command h) = spec_record (capacity h) command (hist_lines h)"
proof -
  have c: "0 < capacity h" and cnt: "0 \<le> count h" "count h \<le> capacity h"
    using assms by (simp_all add: hist_inv_def)
  show ?thesis
  proof (cases "command \<in> set builtin_str")
    case True
    then show ?thesis using c by (simp add: add_history_def spec_record_def find_builtin_None)
  next
    case nb: False
    show ?thesis
    proof (cases "0 < count h \<and> commands h ! slot h (count h - 1) = Some command")
      case True
      then have "hist_lines h \<noteq> [] \<and> last (hist_lines h) = command"
        using last_hist_lines [OF assms, of command] by (auto simp: hist_lines_def)
      then show ?thesis using True nb c
        by (simp add: add_history_def spec_record_def find_builtin_None)
    next
      case nd: False
      have nd': "\<not> (hist_lines h \<noteq> [] \<and> last (hist_lines h) = command)"
      proof
        assume a: "hist_lines h \<noteq> [] \<and> last (hist_lines h) = command"
        then have "0 < count h" by (auto simp: hist_lines_def)
        with a nd last_hist_lines [OF assms, of command] show False by simp
      qed
      show ?thesis
      proof (cases "count h < capacity h")
        case True
        have eq: "add_history command h =
            h\<lparr>commands := (commands h)[slot h (count h) := Some command], count := count h + 1\<rparr>"
          using nb nd True c by (auto simp: add_history_def find_builtin_None)
        have "hist_lines (add_history command h) = hist_lines h @ [command]"
        proof (rule nth_equalityI)
          show "length (hist_lines (add_history command h)) = length (hist_lines h @ [command])"
            using cnt unfolding eq by (simp add: nat_add_distrib)
        next
          fix i assume "i < length (hist_lines (add_history command h))"
          then have i: "i < nat (count h) + 1" using cnt unfolding eq by (simp add: nat_add_distrib)
          have sl: "\<And>k. slot (add_history command h) k = slot h k"
            unfolding eq by (simp add: slot_def)
          have "hist_lines (add_history command h) ! i =
              show_str (commands (add_history command h) ! slot (add_history command h) (int i))"
            using i cnt by (intro nth_hist_lines) (simp add: eq nat_add_distrib)
          also have "\<dots> =
              show_str ((commands h)[slot h (count h) := Some command] ! slot h (int i))"
            by (simp add: sl) (simp add: eq)
          also have "\<dots> = (hist_lines h @ [command]) ! i"
          proof (cases "i < nat (count h)")
            case True
            then have "int i < count h" by linarith
            then have "slot h (int i) \<noteq> slot h (count h)"
              using slot_inj [OF assms, of "int i" "count h"] cnt \<open>count h < capacity h\<close> by auto
            then show ?thesis using True by (simp add: nth_append nth_hist_lines)
          next
            case False
            then have "int i = count h" using i cnt by simp
            then show ?thesis using False slot_less [OF assms, of "count h"]
              by (simp add: nth_append show_str_def)
          qed
          finally show "hist_lines (add_history command h) ! i = (hist_lines h @ [command]) ! i" .
        qed
        then show ?thesis using nb nd' True cnt by (auto simp: spec_record_def)
      next
        case nf: False
        then have full: "count h = capacity h" using cnt by simp
        have eq: "add_history command h =
            h\<lparr>commands := (commands h)[nat (start h) := Some command],
              start := (start h + 1) mod capacity h\<rparr>"
          using nb nd nf c by (auto simp: add_history_def find_builtin_None)
        have sl: "\<And>k. slot (add_history command h) k = slot h (k + 1)"
        proof -
          fix k
          have "((start h + 1) mod capacity h + k) mod capacity h
                  = (start h + 1 + k) mod capacity h"
            by (rule mod_add_left_eq)
          then show "slot (add_history command h) k = slot h (k + 1)"
            unfolding eq by (simp add: slot_def add.assoc add.commute [of 1 k])
        qed
        have ne: "hist_lines h \<noteq> []" using full c by (simp add: hist_lines_def)
        have "hist_lines (add_history command h) = tl (hist_lines h) @ [command]"
        proof (rule nth_equalityI)
          show "length (hist_lines (add_history command h)) = length (tl (hist_lines h) @ [command])"
            using full c unfolding eq by simp
        next
          fix i assume "i < length (hist_lines (add_history command h))"
          then have i: "i < nat (capacity h)" using full unfolding eq by simp
          have "hist_lines (add_history command h) ! i =
              show_str (commands (add_history command h) ! slot (add_history command h) (int i))"
            using i full by (intro nth_hist_lines) (simp add: eq)
          also have "\<dots> = show_str ((commands h)[nat (start h) := Some command] ! slot h (int i + 1))"
            by (simp add: sl) (simp add: eq)
          also have "\<dots> = (tl (hist_lines h) @ [command]) ! i"
          proof (cases "int i + 1 = capacity h")
            case True
            then have "slot h (int i + 1) = nat (start h)" using slot_wrap [OF assms] by simp
            moreover have "\<not> i < nat (capacity h) - 1" using True by simp
            moreover have "i - (nat (capacity h) - 1) = 0" using True by simp
            ultimately show ?thesis using slot_less [OF assms, of "int i + 1"] full
              by (simp add: nth_append show_str_def)
          next
            case False
            then have lt: "i + 1 < nat (capacity h)" using i by simp
            have lt': "int i + 1 < capacity h" using lt by linarith
            have "slot h (int i + 1) \<noteq> slot h 0"
              using slot_inj [OF assms, of "int i + 1" 0] lt' c by auto
            then have "slot h (int i + 1) \<noteq> nat (start h)" using slot_start [OF assms] by simp
            moreover have "hist_lines h ! (i + 1) = show_str (commands h ! slot h (int (i + 1)))"
              using lt full by (intro nth_hist_lines) simp
            moreover have "i < nat (capacity h) - Suc 0" using lt by simp
            ultimately show ?thesis using lt full ne
              by (simp add: nth_append nth_tl add.commute)
          qed
          finally show "hist_lines (add_history command h) ! i
              = (tl (hist_lines h) @ [command]) ! i" .
        qed
        then show ?thesis using nb nd' nf cnt by (auto simp: spec_record_def)
      qed
    qed
  qed
qed

lemma capacity_add_history [simp]: "capacity (add_history command h) = capacity h"
  by (simp add: add_history_def)

lemma hist_inv_initial: "hist_inv initial_history"
  by (simp add: hist_inv_def initial_history_def MAX_HISTORY_def)

lemma add_history_initial:
  "find_builtin command builtin_str 0 = None \<Longrightarrow>
   add_history command initial_history =
     \<lparr>commands = [Some command, None, None, None, None], capacity = 5, count = 1, start = 0\<rparr>"
  by (simp add: add_history_def initial_history_def MAX_HISTORY_def slot_def eval_nat_numeral)

lemma hist_inv_newest:
  assumes "hist_inv h" and "command \<notin> set builtin_str"
  shows "0 < count (add_history command h) \<and>
         commands (add_history command h)
           ! slot (add_history command h) (count (add_history command h) - 1) = Some command"
proof -
  let ?h = "add_history command h"
  have inv: "hist_inv ?h" by (rule add_history_inv [OF assms(1)])
  have cap: "0 < capacity h" using assms(1) by (simp add: hist_inv_def)
  have l: "hist_lines ?h = spec_record (capacity h) command (hist_lines h)"
    by (rule add_history_lines [OF assms(1)])
  have ne: "hist_lines ?h \<noteq> []" and la: "last (hist_lines ?h) = command"
    unfolding l using assms(2) cap by (auto simp: spec_record_def)
  from ne have c: "0 < count ?h"
    using inv by (auto simp: hist_lines_def hist_inv_def)
  with la last_hist_lines [OF inv c, of command] show ?thesis by simp
qed

lemma spec_record_distinct_adj:
  assumes "distinct_adj entries"
  shows "distinct_adj (spec_record cap command entries)"
proof -
  have tl: "distinct_adj (tl entries)"
    using assms by (cases entries) (auto dest: distinct_adj_ConsD)
  have "entries = [] \<or> last entries \<noteq> command \<Longrightarrow> distinct_adj (entries @ [command])"
    using assms by (auto simp: distinct_adj_append_iff)
  moreover have "entries = [] \<or> last entries \<noteq> command
      \<Longrightarrow> distinct_adj (tl entries @ [command])"
    using tl by (cases entries) (auto simp: distinct_adj_append_iff)
  ultimately show ?thesis using assms by (auto simp: spec_record_def)
qed

lemma take_rev_distinct_adj:
  assumes "distinct_adj entries"
  shows "distinct_adj (take n (rev entries))"
proof -
  have "distinct_adj (take n (rev entries) @ drop n (rev entries))" using assms by simp
  then show ?thesis by (rule distinct_adj_appendD1)
qed

lemma find_builtin_single_letter [simp]: "find_builtin [c] builtin_str 0 = None"
  by (simp add: builtin_str_def)

lemma add_history_ab:
  "add_history ''b'' (add_history ''a'' initial_history) =
     \<lparr>commands = [Some ''a'', Some ''b'', None, None, None], capacity = 5, count = 2, start = 0\<rparr>"
  by (simp add: add_history_initial) (simp add: add_history_def slot_def eval_nat_numeral)

text \<open>
  Claim C5 says that \<open>history set N\<close> keeps the most recent entries in their order, so
  that \<open>show_history\<close> prints the same first lines as before. The code copies the entries
  newest first into the new array and then sets \<open>start\<close> to 0, which makes the newest
  entry the logically oldest: with the entries \<open>a\<close> then \<open>b\<close>, the listing \<open>1) b 2) a\<close>
  becomes \<open>1) a 2) b\<close> after \<open>set_history_capacity(5)\<close>.
\<close>

theorem C5_resize_reverses_order:
  "show_history (add_history ''b'' (add_history ''a'' initial_history)) =
     [Printf ''%d) %s\<newline>'' [ArgInt 1, ArgStr ''b''], Printf ''%d) %s\<newline>'' [ArgInt 2, ArgStr ''a'']]
   \<and> show_history (history (set_history_capacity 5
         (s\<lparr>history := add_history ''b'' (add_history ''a'' initial_history)\<rparr>))) =
     [Printf ''%d) %s\<newline>'' [ArgInt 1, ArgStr ''a''], Printf ''%d) %s\<newline>'' [ArgInt 2, ArgStr ''b'']]"
  by (simp add: add_history_ab set_history_capacity_def show_history_def slot_def show_str_def
      eval_nat_numeral upt_rec)

text \<open>
  In general the resize keeps the most recent entries, in reversed order; a request that
  is not positive leaves the history as it is.
\<close>

lemma set_history_capacity_lines:
  assumes "hist_inv (history s)" "0 < cap"
  shows "hist_lines (history (set_history_capacity cap s)) =
           take (nat cap) (rev (hist_lines (history s)))"
proof -
  let ?h = "history s"
  let ?n = "if count ?h < cap then count ?h else cap"
  have cnt: "0 \<le> count ?h" using assms(1) by (simp add: hist_inv_def)
  have n: "0 \<le> ?n" "?n \<le> count ?h" "?n \<le> cap" using cnt assms(2) by auto
  let ?copied = "map (\<lambda>i. commands ?h ! slot ?h (count ?h - 1 - int i)) [0..<nat ?n]"
  have h': "history (set_history_capacity cap s) =
      \<lparr>commands = ?copied @ replicate (nat cap - nat ?n) None, capacity = cap, count = ?n,
       start = 0\<rparr>"
    using assms(2) by (simp add: set_history_capacity_def Let_def)
  show ?thesis
  proof (rule nth_equalityI)
    show "length (hist_lines (history (set_history_capacity cap s))) =
        length (take (nat cap) (rev (hist_lines ?h)))"
      using n cnt unfolding h' by auto
  next
    fix i assume "i < length (hist_lines (history (set_history_capacity cap s)))"
    then have i: "i < nat ?n" unfolding h' by simp
    then have i2: "int i < ?n" by linarith
    then have i3: "int i < cap" "int i < count ?h" using n by linarith+
    have "hist_lines (history (set_history_capacity cap s)) ! i =
        show_str ((?copied @ replicate (nat cap - nat ?n) None) ! nat (int i mod cap))"
      using i unfolding h' by (simp add: hist_lines_def slot_def)
    also have "int i mod cap = int i" using i3 by simp
    also have "(?copied @ replicate (nat cap - nat ?n) None) ! nat (int i) = ?copied ! i"
      using i by (simp add: nth_append)
    also have "?copied ! i = commands ?h ! slot ?h (count ?h - 1 - int i)"
      using i by simp
    also have "show_str (commands ?h ! slot ?h (count ?h - 1 - int i)) =
        hist_lines ?h ! (nat (count ?h) - 1 - i)"
    proof -
      have "nat (count ?h) - 1 - i < nat (count ?h)" using i3 by linarith
      moreover have "int (nat (count ?h) - 1 - i) = count ?h - 1 - int i" using i3 by linarith
      ultimately show ?thesis by (simp add: nth_hist_lines)
    qed
    also have "\<dots> = take (nat cap) (rev (hist_lines ?h)) ! i"
      using i3 by (simp add: rev_nth)
    finally show "hist_lines (history (set_history_capacity cap s)) ! i =
        take (nat cap) (rev (hist_lines ?h)) ! i" .
  qed
qed

lemma set_history_capacity_rejects:
  "cap \<le> 0 \<Longrightarrow> history (set_history_capacity cap s) = history s"
  by (simp add: set_history_capacity_def)

lemma set_history_capacity_inv:
  assumes "hist_inv (history s)"
  shows "hist_inv (history (set_history_capacity cap s))"
proof (cases "cap \<le> 0")
  case True
  then show ?thesis using assms by (simp add: set_history_capacity_def)
next
  case False
  let ?h = "history s"
  let ?n = "if count ?h < cap then count ?h else cap"
  have cnt: "0 \<le> count ?h" using assms(1) by (simp add: hist_inv_def)
  have n: "0 \<le> ?n" "?n \<le> count ?h" "?n \<le> cap" using cnt False by auto
  let ?copied = "map (\<lambda>i. commands ?h ! slot ?h (count ?h - 1 - int i)) [0..<nat ?n]"
  have h': "history (set_history_capacity cap s) =
      \<lparr>commands = ?copied @ replicate (nat cap - nat ?n) None, capacity = cap, count = ?n,
       start = 0\<rparr>"
    using False by (simp add: set_history_capacity_def Let_def)
  have "\<And>k. 0 \<le> k \<Longrightarrow> k < ?n \<Longrightarrow>
      (?copied @ replicate (nat cap - nat ?n) None) ! nat (k mod cap) \<noteq> None"
  proof -
    fix k assume k: "0 \<le> k" "k < ?n"
    then have k2: "k < cap" "k < count ?h" using n by linarith+
    have "(?copied @ replicate (nat cap - nat ?n) None) ! nat (k mod cap) = ?copied ! nat k"
      using k k2 by (simp add: nth_append)
    also have "\<dots> = commands ?h ! slot ?h (count ?h - 1 - k)"
      using k by simp
    also have "\<dots> \<noteq> None" using assms k k2 by (simp add: hist_inv_def)
    finally show "(?copied @ replicate (nat cap - nat ?n) None) ! nat (k mod cap) \<noteq> None" .
  qed
  then show ?thesis
    using n False unfolding h' by (simp add: hist_inv_def slot_def)
qed

subsection \<open>How a command ends\<close>

lemma execute_command_unfold:
  "execute_command n w args s =
     execute_body (case n of 0 \<Rightarrow> (\<lambda>args s. None) | Suc m \<Rightarrow> execute_command m w) w args s"
  by (cases n) simp_all

lemma shell_result_status_ok: "shell_result r \<Longrightarrow> status_ok r"
  by (cases r) (simp_all add: shell_result_def status_ok_def)

lemma wsh_cd_result: "shell_result (wsh_cd w args s)"
  by (simp add: wsh_cd_def shell_result_def split: option.splits)

lemma wsh_exit_cmd_result: "shell_result (wsh_exit_cmd args s)"
  by (simp add: wsh_exit_cmd_def shell_result_def cleanup_shell_def)

lemma wsh_export_result: "shell_result (wsh_export args s)"
  by (simp add: wsh_export_def shell_result_def split: option.splits prod.splits)

lemma wsh_local_cmd_result: "shell_result (wsh_local_cmd args s)"
  by (simp add: wsh_local_cmd_def shell_result_def Let_def split: option.splits prod.splits)

lemma wsh_vars_result: "shell_result (wsh_vars args s)"
  by (simp add: wsh_vars_def shell_result_def)


lemma wsh_ls_status: "wsh_ls w args s = Some r \<Longrightarrow> status_ok r"
  by (auto simp: wsh_ls_def status_ok_def Let_def split: if_splits option.splits)


lemma launch_child_status: "status_ok (launch_child w args r s)"
  by (simp add: launch_child_def status_ok_def Let_def split: prod.splits list.splits option.splits)

lemma launch_process_status: "launch_process w args s = Some r \<Longrightarrow> status_ok r"
  by (auto simp: launch_process_def launch_child_status split: if_splits option.splits prod.splits)
    (simp_all add: status_ok_def)



lemma execute_history_command_status:
  assumes "execute_history_command exec k s = Some r"
  shows "status_ok r"
  using assms
  by (auto simp: execute_history_command_def Let_def status_ok_def
      split: if_splits option.splits outcome.splits)


lemma wsh_history_cmd_status:
  assumes "wsh_history_cmd exec args s = Some r"
  shows "status_ok r"
proof -
  have "r = Returns 1 (emit (show_history (history s)) s) \<or>
        (\<exists>m. r = Returns 1 (emit [Eprintf m []] s)) \<or>
        (\<exists>c. r = Returns 1 (set_history_capacity c s)) \<or> r = Returns 1 s \<or>
        (\<exists>k. execute_history_command exec k s = Some r)"
    using assms
    by (auto simp: wsh_history_cmd_def Let_def split: option.splits if_splits)
  then show ?thesis
    using execute_history_command_status
    by (auto simp: status_ok_def)
qed


lemma builtin_func_status:
  assumes "builtin_func i exec w args s = Some r"
  shows "status_ok r"
  using assms wsh_history_cmd_status wsh_ls_status
    wsh_cd_result wsh_exit_cmd_result wsh_export_result wsh_local_cmd_result wsh_vars_result
  by (auto simp: builtin_func_def shell_result_status_ok split: if_splits)


lemma dispatch_command_status:
  assumes "dispatch_command exec w args s = Some r"
  shows "status_ok r"
  using assms builtin_func_status launch_process_status
  by (auto simp: dispatch_command_def Let_def split: option.splits)

lemma execute_body_cases:
  "execute_body exec w args s = Some r \<Longrightarrow>
     r = Returns 1 s \<or> dispatch_command exec w args s = Some r \<or>
     (\<exists>k. execute_history_command exec k s = Some r)"
  by (auto simp: execute_body_def Let_def split: list.splits if_splits option.splits)


lemma execute_body_status:
  assumes "execute_body exec w args s = Some r"
  shows "status_ok r"
  using execute_body_cases [OF assms] dispatch_command_status execute_history_command_status
  by (auto simp: status_ok_def)


lemma execute_command_status: "execute_command n w args s = Some r \<Longrightarrow> status_ok r"
  by (cases n) (auto dest: execute_body_status)

lemma execute_command_Nil: "execute_command n w [] s = Some (Returns 1 s)"
  by (cases n) (simp_all add: execute_body_def)

subsection \<open>History replay\<close>

lemma show_history_nth:
  assumes "1 \<le> k" "k \<le> count h"
  shows "show_history h ! nat (k - 1) =
           Printf ''%d) %s\<newline>'' [ArgInt k, ArgStr (show_str (commands h ! slot h (count h - k)))]"
proof -
  have "nat (k - 1) < nat (count h)" using assms by linarith
  moreover have "int (nat (k - 1)) = k - 1" using assms by simp
  moreover have "count h - 1 - (k - 1) = count h - k" by simp
  ultimately show ?thesis by (simp add: show_history_def)
qed

text \<open>
  Claim C6. In a state whose ring is well formed, replaying index \<open>k\<close> with
  \<open>1 \<le> k \<le> count\<close> runs exactly the line that \<open>show_history\<close> prints as its \<open>k\<close>-th entry,
  through \<open>parse_line\<close> and \<open>execute_command\<close>; for \<open>k \<le> 0\<close> or \<open>k > count\<close> the replay
  returns 1 and leaves the whole state, the trace included, unchanged.
\<close>

theorem C6_history_replay:
  assumes "hist_inv (history s)"
  shows "(1 \<le> k \<and> k \<le> count (history s) \<longrightarrow>
           (\<exists>line. show_history (history s) ! nat (k - 1) =
                      Printf ''%d) %s\<newline>'' [ArgInt k, ArgStr line] \<and>
                   execute_history_command (execute_command n w) k s =
                      execute_command n w (parse_line s line) s))
       \<and> (k \<le> 0 \<or> k > count (history s) \<longrightarrow>
           execute_history_command exec k s = Some (Returns 1 s))"
proof (intro conjI impI)
  assume k: "1 \<le> k \<and> k \<le> count (history s)"
  let ?h = "history s"
  have "commands ?h ! slot ?h (count ?h - k) \<noteq> None"
    using assms k by (simp add: hist_inv_def)
  then obtain line where line: "commands ?h ! slot ?h (count ?h - k) = Some line" by auto
  have shown: "show_history ?h ! nat (k - 1) = Printf ''%d) %s\<newline>'' [ArgInt k, ArgStr line]"
    using show_history_nth [of k ?h] k line by (simp add: show_str_def)
  have "execute_history_command (execute_command n w) k s =
      execute_command n w (parse_line s line) s"
  proof (cases "parse_line s line = []")
    case True
    then show ?thesis using k line
      by (simp add: execute_history_command_def execute_command_Nil)
  next
    case False
    show ?thesis
    proof (cases "execute_command n w (parse_line s line) s")
      case None
      then show ?thesis using k line False by (simp add: execute_history_command_def)
    next
      case (Some r)
      then have "status_ok r" by (rule execute_command_status)
      then show ?thesis using k line False Some
        by (cases r) (simp_all add: execute_history_command_def status_ok_def)
    qed
  qed
  with shown show "\<exists>line. show_history ?h ! nat (k - 1) =
        Printf ''%d) %s\<newline>'' [ArgInt k, ArgStr line] \<and>
      execute_history_command (execute_command n w) k s =
        execute_command n w (parse_line s line) s"
    by blast
next
  assume "k \<le> 0 \<or> k > count (history s)"
  then show "execute_history_command exec k s = Some (Returns 1 s)"
    by (auto simp: execute_history_command_def)
qed

lemma hist_inv_sample: "hist_inv (history sample_shell)"
proof -
  have "\<And>k::int. 0 \<le> k \<Longrightarrow> k < 4 \<Longrightarrow>
      [Some ''$X'', Some [], Some ''local X=exit'', Some ''history 4'', None] ! nat (k mod 5) \<noteq> None"
  proof -
    fix k :: int assume "0 \<le> k" "k < 4"
    then consider "k = 0" | "k = 1" | "k = 2" | "k = 3" by linarith
    then show "[Some ''$X'', Some [], Some ''local X=exit'', Some ''history 4'', None]
        ! nat (k mod 5) \<noteq> None"
      by cases (simp_all add: eval_nat_numeral)
  qed
  then show ?thesis
    by (simp add: hist_inv_def sample_shell_def slot_def)
qed

lemma parse_line_local_exit:
  "parse_line s ''local X=exit'' = [''local'', ''X=exit'']"
  by (simp add: parse_line_def parse_loop_map strtok_all_Cons DELIMITERS_def
      handle_variable_substitution_def)

text \<open>
  Claim C6 at a concrete state with four entries: index 2 and index 5.
\<close>

theorem C6_witness:
  "hist_inv (history sample_shell) \<and>
   execute_history_command (execute_command 0 sample_os) 2 sample_shell =
     execute_command 0 sample_os [''local'', ''X=exit''] sample_shell \<and>
   execute_history_command (execute_command 0 sample_os) 5 sample_shell =
     Some (Returns 1 sample_shell)"
proof -
  have sh: "show_history (history sample_shell) ! nat (2 - 1) =
      Printf ''%d) %s\<newline>'' [ArgInt 2, ArgStr ''local X=exit'']"
    by (simp add: sample_shell_def show_history_def slot_def show_str_def eval_nat_numeral upt_rec)
  have cnt: "count (history sample_shell) = 4" by (simp add: sample_shell_def)
  from C6_history_replay [OF hist_inv_sample, of 2 0 sample_os]
  obtain line where
    l: "show_history (history sample_shell) ! nat (2 - 1) =
          Printf ''%d) %s\<newline>'' [ArgInt 2, ArgStr line]"
    and e: "execute_history_command (execute_command 0 sample_os) 2 sample_shell =
          execute_command 0 sample_os (parse_line sample_shell line) sample_shell"
    using cnt by auto
  from l sh have "line = ''local X=exit''" by simp
  with e have "execute_history_command (execute_command 0 sample_os) 2 sample_shell =
     execute_command 0 sample_os [''local'', ''X=exit''] sample_shell"
    by (simp add: parse_line_local_exit)
  moreover have "execute_history_command (execute_command 0 sample_os) 5 sample_shell =
     Some (Returns 1 sample_shell)"
    using C6_history_replay [OF hist_inv_sample, of 5 0 sample_os "execute_command 0 sample_os"] cnt
    by simp
  ultimately show ?thesis using hist_inv_sample by simp
qed

subsection \<open>The shell continues\<close>








lemma execute_body_exit:
  "execute_body exec w [''exit''] s = Some (Exits EXIT_SUCCESS (cleanup_shell s))"
  by (simp add: execute_body_def dispatch_command_def builtin_str_def builtin_func_def
      wsh_exit_cmd_def arg_def)



lemma parse_line_dollar_X:
  "parse_line sample_shell ''$X'' = [''exit'']"
  by (simp add: parse_line_def parse_loop_map strtok_all_Cons DELIMITERS_def
      handle_variable_substitution_def getenv_def sample_shell_def)

lemma atoi_4: "atoi ''4'' = 4"
  by (simp add: atoi_def strtol_def int_of_long_def LONG_MAX_def LONG_MIN_def isspace_def
      isdigit_def)

text \<open>
  \<open>atoi\<close> returns an \<open>int\<close>: a number beyond its range comes back reduced to 32 bits, so
  that \<open>history -4294967292\<close> is a replay request, for the entry 4.
\<close>

lemma atoi_wraps:
  "atoi ''-4294967292'' = 4 \<and> atoi ''2147483648'' = - 2147483648 \<and>
   atoi ''99999999999999999999999'' = - 1 \<and> atoi ''  +17x'' = 17"
  by (simp add: atoi_def strtol_def int_of_long_def LONG_MAX_def LONG_MIN_def isspace_def
      isdigit_def)

lemma replay_request_wraps: "replay_request [''history'', ''-4294967292'']"
  using atoi_wraps by (simp add: replay_request_def arg_def)

lemma sample_replay_exits:
  "execute_command 1 sample_os [''history'', ''4''] sample_shell =
     Some (Exits EXIT_SUCCESS (cleanup_shell sample_shell))"
proof -
  have cmd: "commands (history sample_shell)
               ! slot (history sample_shell) (count (history sample_shell) - 4) = Some ''$X''"
    by (simp add: sample_shell_def slot_def)
  have cnt: "count (history sample_shell) = 4" by (simp add: sample_shell_def)
  have "execute_command 1 sample_os [''history'', ''4''] sample_shell =
      execute_history_command (execute_command 0 sample_os) 4 sample_shell"
    by (simp add: execute_command_unfold [of 1] execute_body_def arg_def atoi_4)
  also have "\<dots> = execute_command 0 sample_os [''exit''] sample_shell"
    using cmd cnt
    by (simp add: execute_history_command_def parse_line_dollar_X execute_command_unfold [of 0]
        execute_body_exit del: execute_command.simps)
  also have "\<dots> = Some (Exits EXIT_SUCCESS (cleanup_shell sample_shell))"
    by (simp add: execute_body_exit)
  finally show ?thesis .
qed


lemma sample_os_parent: "fork_pid sample_os \<noteq> 0 \<and> wait_loop (waits sample_os) \<noteq> None"
  by (simp add: sample_os_def)


subsection \<open>What main records\<close>

lemma find_builtin_cd: "find_builtin ''cd'' builtin_str 0 = Some 0"
  by (simp add: builtin_str_def)

lemma execute_body_cd:
  "execute_body exec w (''cd'' # rest) s = Some (wsh_cd w (''cd'' # rest) s)"
  by (simp add: execute_body_def dispatch_command_def find_builtin_cd builtin_func_def)

lemma parse_line_cd_tmp:
  "parse_line s ''cd /tmp\<newline>'' = [''cd'', ''/tmp'']"
  by (simp add: parse_line_def parse_loop_map strtok_all_Cons DELIMITERS_def
      handle_variable_substitution_def)

text \<open>
  Claim C3 says that the history never holds a built-in invocation. \<open>add_history\<close>
  compares the whole line with the bare names of the table, so only a built-in typed
  without arguments is kept out: the line \<open>cd /tmp\<close> is recorded by \<open>main\<close>.
\<close>

theorem C3_builtin_line_recorded:
  "\<exists>s'. main_iteration n w ''cd /tmp\<newline>'' (initialize_shell e) = Some (Returns 1 s') \<and>
        show_history (history s') = [Printf ''%d) %s\<newline>'' [ArgInt 1, ArgStr ''cd /tmp'']]"
proof -
  have nb: "find_builtin ''cd /tmp'' builtin_str 0 = None"
    by (simp add: builtin_str_def)
  have "main_iteration n w ''cd /tmp\<newline>'' (initialize_shell e) =
      Some (wsh_cd w [''cd'', ''/tmp'']
        ((initialize_shell e)\<lparr>history := add_history ''cd /tmp'' initial_history\<rparr>))"
    by (simp add: main_iteration_def Let_def parse_line_cd_tmp execute_command_unfold [of n]
        execute_body_cd) (simp add: initialize_shell_def)
  then show ?thesis
    by (simp add: wsh_cd_def arg_def emit_def add_history_initial [OF nb] show_history_def
        slot_def show_str_def)
qed

lemma history_emit [simp]: "history (emit es s) = history s"
  by (simp add: emit_def)

lemma launch_process_history:
  assumes "fork_pid w \<noteq> 0" "wait_loop (waits w) \<noteq> None"
  shows "\<exists>s'. launch_process w args s = Some (Returns 1 s') \<and> history s' = history s"
  using assms by (auto simp: launch_process_def split: prod.splits)

text \<open>
  What \<open>add_history\<close> does with a text that is not a bare built-in name: nothing when
  it repeats the newest entry, the append of the ring otherwise. Neither the typed line
  of a command that is not a built-in nor its rejoined arguments is a bare built-in name.
\<close>

lemma spec_record_ring_append:
  "spec_record cap command entries =
     (if command \<in> set builtin_str \<or> (entries \<noteq> [] \<and> last entries = command) then entries
      else ring_append cap command entries)"
  by (simp add: spec_record_def ring_append_def)

lemma ring_append_last:
  "ring_append cap command entries \<noteq> [] \<and> last (ring_append cap command entries) = command"
  by (simp add: ring_append_def)

lemma builtin_names_without_space: "b \<in> set builtin_str \<Longrightarrow> CHR '' '' \<notin> set b"
  by (auto simp: builtin_str_def)

lemma join_args_space: "CHR '' '' \<in> set (join_args (a # b # rest))"
  by simp

lemma join_args_not_builtin:
  assumes "args \<noteq> []" and "hd args \<notin> set builtin_str"
  shows "join_args args \<notin> set builtin_str"
proof (cases args)
  case Nil
  with assms show ?thesis by simp
next
  case (Cons a rest)
  show ?thesis
  proof (cases rest)
    case Nil
    with Cons assms show ?thesis by simp
  next
    case (Cons b rest')
    then have "CHR '' '' \<in> set (join_args args)"
      using \<open>args = a # rest\<close> join_args_space [of a b rest'] by simp
    then show ?thesis using builtin_names_without_space by blast
  qed
qed

lemma parse_line_builtin_names:
  "\<forall>b \<in> set builtin_str. parse_line s b = [b] \<and> parse_line s (b @ [CHR 0x0A]) = [b]"
  by (simp add: builtin_str_def parse_line_def parse_loop_map strtok_all_Cons DELIMITERS_def
        handle_variable_substitution_def)

lemma parse_line_builtin_name:
  assumes "b \<in> set builtin_str"
  shows "parse_line s b = [b] \<and> parse_line s (b @ [CHR 0x0A]) = [b]"
  using assms parse_line_builtin_names by blast

lemma typed_line_not_builtin:
  assumes "trimmed \<noteq> []"
    and "line_copy = (if last trimmed = CHR 0x0A then butlast trimmed else trimmed)"
    and "find_builtin (hd (parse_line s trimmed)) builtin_str 0 = None"
  shows "line_copy \<notin> set builtin_str"
proof
  assume b: "line_copy \<in> set builtin_str"
  have "trimmed = line_copy \<or> trimmed = line_copy @ [CHR 0x0A]"
  proof (cases "last trimmed = CHR 0x0A")
    case True
    then have "line_copy = butlast trimmed" using assms(2) by simp
    then have "trimmed = line_copy @ [CHR 0x0A]"
      using append_butlast_last_id [OF assms(1)] True by simp
    then show ?thesis ..
  next
    case False
    then show ?thesis using assms(2) by simp
  qed
  then have "parse_line s trimmed = [line_copy]"
    using parse_line_builtin_name [OF b, of s] by auto
  then have "find_builtin line_copy builtin_str 0 = None" using assms(3) by simp
  with b show False by (simp add: find_builtin_None)
qed

text \<open>
  Claim C4, as the code has it. For an executed line whose command is not a built-in, in
  the shell process and when the wait for the child ends, \<open>main\<close> records the typed line
  (leading blanks and the final newline removed) and \<open>execute_command\<close> then records the
  substituted arguments joined by single spaces. The entries afterwards are the entries
  before, with the typed line appended unless it repeats the newest entry, and then the
  rejoined text appended unless it is equal to the typed line; an append to a full ring
  drops the oldest entry. So the line causes two appends, one, or none.
\<close>

theorem C4_typed_line_then_rejoined_arguments:
  assumes "hist_inv (history s)"
    and "trimmed = dropWhile (\<lambda>c. c = CHR '' '' \<or> c = CHR 0x09) line"
    and "trimmed \<noteq> []" and "hd trimmed \<noteq> CHR ''#''" and "hd trimmed \<noteq> CHR 0x0A"
    and "line_copy = (if last trimmed = CHR 0x0A then butlast trimmed else trimmed)"
    and "args = parse_line s trimmed"
    and "args \<noteq> []" and "find_builtin (hd args) builtin_str 0 = None"
    and "fork_pid w \<noteq> 0" and "wait_loop (waits w) \<noteq> None"
  shows "\<exists>s'. main_iteration n w line s = Some (Returns 1 s') \<and>
           history s' = add_history (join_args args) (add_history line_copy (history s)) \<and>
           hist_lines (history s') =
             spec_record (capacity (history s)) (join_args args)
               (spec_record (capacity (history s)) line_copy (hist_lines (history s))) \<and>
           hist_lines (history s') =
             (let entries = hist_lines (history s);
                  typed = (if entries \<noteq> [] \<and> last entries = line_copy then entries
                           else ring_append (capacity (history s)) line_copy entries)
              in if join_args args = line_copy then typed
                 else ring_append (capacity (history s)) (join_args args) typed)"
proof -
  let ?s1 = "s\<lparr>history := add_history line_copy (history s)\<rparr>"
  let ?s2 = "?s1\<lparr>history := add_history (join_args args) (history ?s1)\<rparr>"
  let ?cap = "capacity (history s)"
  let ?es = "hist_lines (history s)"
  obtain a0 rest where args: "args = a0 # rest" using assms(8) by (cases args) auto
  have nh: "a0 \<noteq> ''history''"
    using assms(9) args by (auto simp: builtin_str_def)
  have body: "\<And>exec. execute_body exec w args ?s1 = launch_process w args ?s2"
    using args nh assms(9) by (simp add: execute_body_def dispatch_command_def Let_def)
  have "main_iteration n w line s = execute_command n w args ?s1"
    unfolding main_iteration_def Let_def assms(2) [symmetric]
    using assms(3-5) by (simp add: assms(6,7))
  also have "\<dots> = launch_process w args ?s2"
    by (simp add: execute_command_unfold [of n] body)
  finally have m: "main_iteration n w line s = launch_process w args ?s2" .
  from launch_process_history [OF assms(10,11), of args ?s2]
  obtain s' where s': "launch_process w args ?s2 = Some (Returns 1 s')"
    and h: "history s' = history ?s2" by blast
  have h2: "history s' = add_history (join_args args) (add_history line_copy (history s))"
    using h by simp
  have inv1: "hist_inv (add_history line_copy (history s))"
    by (rule add_history_inv [OF assms(1)])
  have l: "hist_lines (history s') =
      spec_record ?cap (join_args args) (spec_record ?cap line_copy ?es)"
    unfolding h2 using add_history_lines [OF inv1, of "join_args args"]
      add_history_lines [OF assms(1), of line_copy]
    by simp
  have nb1: "line_copy \<notin> set builtin_str"
    using typed_line_not_builtin [OF assms(3,6)] assms(7,9) by simp
  have nb2: "join_args args \<notin> set builtin_str"
    using join_args_not_builtin [OF assms(8)] assms(9) by (simp add: find_builtin_None)
  let ?typed = "if ?es \<noteq> [] \<and> last ?es = line_copy then ?es else ring_append ?cap line_copy ?es"
  have t: "spec_record ?cap line_copy ?es = ?typed"
    using nb1 by (simp add: spec_record_ring_append)
  have tl: "?typed \<noteq> [] \<and> last ?typed = line_copy"
    using ring_append_last [of ?cap line_copy ?es] by simp
  have "spec_record ?cap (join_args args) ?typed =
      (if join_args args = line_copy then ?typed else ring_append ?cap (join_args args) ?typed)"
    using nb2 tl unfolding spec_record_ring_append [of ?cap "join_args args" ?typed] by auto
  with l t have e: "hist_lines (history s') =
      (if join_args args = line_copy then ?typed else ring_append ?cap (join_args args) ?typed)"
    by simp
  from m s' h2 l e show ?thesis by (simp add: Let_def)
qed

lemma parse_line_echo_path:
  "parse_line (initialize_shell Map.empty) ''echo $PATH\<newline>'' = [''echo'', ''/bin'']"
  by (simp add: parse_line_def parse_loop_map strtok_all_Cons DELIMITERS_def
      handle_variable_substitution_def getenv_def initialize_shell_def DEFAULT_PATH_def)

lemma hist_inv_start: "hist_inv (history (initialize_shell e))"
  by (simp add: initialize_shell_def hist_inv_initial)

text \<open>
  Claim C4 as it was stated fails: the line \<open>echo $PATH\<close> leaves two entries, the typed
  line and \<open>echo /bin\<close>.
\<close>

theorem C4_counterexample:
  "main_iteration 0 sample_os ''echo $PATH\<newline>'' (initialize_shell Map.empty) =
     Some (Returns 1 ((initialize_shell Map.empty)
       \<lparr>history := \<lparr>commands = [Some ''echo $PATH'', Some ''echo /bin'', None, None, None],
                     capacity = 5, count = 2, start = 0\<rparr>\<rparr>))"
proof -
  have a: "find_builtin ''echo $PATH'' builtin_str 0 = None" by (simp add: builtin_str_def)
  have b: "find_builtin ''echo /bin'' builtin_str 0 = None" by (simp add: builtin_str_def)
  have c: "find_builtin ''echo'' builtin_str 0 = None" by (simp add: builtin_str_def)
  have h: "add_history ''echo /bin'' (add_history ''echo $PATH'' initial_history) =
      \<lparr>commands = [Some ''echo $PATH'', Some ''echo /bin'', None, None, None],
       capacity = 5, count = 2, start = 0\<rparr>"
    by (simp add: add_history_initial [OF a]) (simp add: add_history_def b slot_def eval_nat_numeral)
  have l: "launch_process sample_os [''echo'', ''/bin''] s = Some (Returns 1 s)" for s
    by (simp add: launch_process_def parse_redirection_def scan_redirection.simps
        strncmp_is_0_def sample_os_def emit_def)
  have i: "history (initialize_shell Map.empty) = initial_history"
    by (simp add: initialize_shell_def)
  show ?thesis
    by (simp add: main_iteration_def Let_def parse_line_echo_path execute_body_def
        dispatch_command_def c l i h)
qed

lemma parse_line_echo_a:
  "parse_line s ''echo a\<newline>'' = [''echo'', ''a''] \<and> parse_line s ''echo b\<newline>'' = [''echo'', ''b'']"
  by (simp add: parse_line_def parse_loop_map strtok_all_Cons DELIMITERS_def
      handle_variable_substitution_def)

lemma once_shell_history:
  "hist_inv (history once_shell) \<and> hist_lines (history once_shell) = [''echo a''] \<and>
   capacity (history once_shell) = 5"
proof -
  have a: "find_builtin ''echo a'' builtin_str 0 = None" by (simp add: builtin_str_def)
  have h: "history once_shell = add_history ''echo a'' initial_history"
    by (simp add: once_shell_def add_history_initial [OF a])
  have "hist_inv (history once_shell)"
    unfolding h by (rule add_history_inv [OF hist_inv_initial])
  moreover have "hist_lines (history once_shell) = [''echo a'']"
    by (simp add: once_shell_def hist_lines_def slot_def show_str_def)
  moreover have "capacity (history once_shell) = 5" by (simp add: once_shell_def)
  ultimately show ?thesis by simp
qed

lemma full_shell_history:
  "hist_inv (history full_shell) \<and> hist_lines (history full_shell) = [''echo a''] \<and>
   capacity (history full_shell) = 1"
  by (simp add: full_shell_def hist_inv_def hist_lines_def slot_def show_str_def)

text \<open>
  Claim C4 at concrete lines. In the initial shell the line \<open>echo  $PATH\<close>, typed with
  leading blanks and two spaces inside, leaves two entries, and the line \<open>echo a\<close>
  leaves one; typed again when \<open>echo a\<close> is the newest entry it leaves none; and in a
  full ring of capacity 1 the line \<open>echo b\<close> takes the place of the entry \<open>echo a\<close>.
\<close>

theorem C4_witness:
  "hist_inv (history (initialize_shell Map.empty)) \<and> hist_inv (history once_shell) \<and>
   hist_inv (history full_shell) \<and>
   fork_pid sample_os \<noteq> 0 \<and> wait_loop (waits sample_os) \<noteq> None \<and>
   hist_lines (history (initialize_shell Map.empty)) = [] \<and>
   (\<exists>s'. main_iteration 0 sample_os ''  echo  $PATH\<newline>'' (initialize_shell Map.empty)
            = Some (Returns 1 s') \<and>
         hist_lines (history s') = [''echo  $PATH'', ''echo /bin'']) \<and>
   (\<exists>s'. main_iteration 0 sample_os ''echo a\<newline>'' (initialize_shell Map.empty)
            = Some (Returns 1 s') \<and>
         hist_lines (history s') = [''echo a'']) \<and>
   hist_lines (history once_shell) = [''echo a''] \<and>
   (\<exists>s'. main_iteration 0 sample_os ''echo a\<newline>'' once_shell = Some (Returns 1 s') \<and>
         hist_lines (history s') = [''echo a'']) \<and>
   hist_lines (history full_shell) = [''echo a''] \<and> capacity (history full_shell) = 1 \<and>
   (\<exists>s'. main_iteration 0 sample_os ''echo b\<newline>'' full_shell = Some (Returns 1 s') \<and>
         hist_lines (history s') = [''echo b''])"
proof -
  let ?s = "initialize_shell Map.empty"
  have p: "fork_pid sample_os \<noteq> 0" and q: "wait_loop (waits sample_os) \<noteq> None"
    using sample_os_parent by simp_all
  have t: "''echo  $PATH\<newline>'' = dropWhile (\<lambda>c. c = CHR '' '' \<or> c = CHR 0x09) ''  echo  $PATH\<newline>''"
    by simp
  have lc: "''echo  $PATH'' =
      (if last ''echo  $PATH\<newline>'' = CHR 0x0A then butlast ''echo  $PATH\<newline>''
       else ''echo  $PATH\<newline>'')"
    by simp
  have a: "[''echo'', ''/bin''] = parse_line ?s ''echo  $PATH\<newline>''"
    by (simp add: parse_line_def parse_loop_map strtok_all_Cons DELIMITERS_def
      handle_variable_substitution_def getenv_def initialize_shell_def DEFAULT_PATH_def)
  have nb: "find_builtin (hd [''echo'', ''/bin'']) builtin_str 0 = None"
    by (simp add: builtin_str_def)
  have ta: "''echo a\<newline>'' = dropWhile (\<lambda>c. c = CHR '' '' \<or> c = CHR 0x09) ''echo a\<newline>''"
    by simp
  have lca: "''echo a'' =
      (if last ''echo a\<newline>'' = CHR 0x0A then butlast ''echo a\<newline>'' else ''echo a\<newline>'')"
    by simp
  have aa: "[''echo'', ''a''] = parse_line s ''echo a\<newline>''" for s
    by (simp add: parse_line_echo_a)
  have nba: "find_builtin (hd [''echo'', ''a'']) builtin_str 0 = None"
    by (simp add: builtin_str_def)
  have tb: "''echo b\<newline>'' = dropWhile (\<lambda>c. c = CHR '' '' \<or> c = CHR 0x09) ''echo b\<newline>''"
    by simp
  have lcb: "''echo b'' =
      (if last ''echo b\<newline>'' = CHR 0x0A then butlast ''echo b\<newline>'' else ''echo b\<newline>'')"
    by simp
  have ab: "[''echo'', ''b''] = parse_line s ''echo b\<newline>''" for s
    by (simp add: parse_line_echo_a)
  have nbb: "find_builtin (hd [''echo'', ''b'']) builtin_str 0 = None"
    by (simp add: builtin_str_def)
  have l0: "hist_lines (history ?s) = []"
    by (simp add: hist_lines_def initialize_shell_def initial_history_def)
  have cap: "capacity (history ?s) = 5"
    by (simp add: initialize_shell_def initial_history_def MAX_HISTORY_def)
  note o = once_shell_history
  note f = full_shell_history
  have r1: "\<exists>s'. main_iteration 0 sample_os ''  echo  $PATH\<newline>'' ?s = Some (Returns 1 s') \<and>
      hist_lines (history s') = [''echo  $PATH'', ''echo /bin'']"
    using C4_typed_line_then_rejoined_arguments [OF hist_inv_start [of Map.empty] t _ _ _ lc a _ nb p q, of 0]
    unfolding l0 cap by (auto simp: ring_append_def Let_def)
  have r2: "\<exists>s'. main_iteration 0 sample_os ''echo a\<newline>'' ?s = Some (Returns 1 s') \<and>
      hist_lines (history s') = [''echo a'']"
    using C4_typed_line_then_rejoined_arguments [OF hist_inv_start [of Map.empty] ta _ _ _ lca aa [of ?s] _ nba p q, of 0]
    unfolding l0 cap by (auto simp: ring_append_def Let_def)
  have r3: "\<exists>s'. main_iteration 0 sample_os ''echo a\<newline>'' once_shell = Some (Returns 1 s') \<and>
      hist_lines (history s') = [''echo a'']"
    using C4_typed_line_then_rejoined_arguments
      [OF conjunct1 [OF o] ta _ _ _ lca aa [of once_shell] _ nba p q, of 0]
    by (auto simp: o ring_append_def Let_def)
  have r4: "\<exists>s'. main_iteration 0 sample_os ''echo b\<newline>'' full_shell = Some (Returns 1 s') \<and>
      hist_lines (history s') = [''echo b'']"
    using C4_typed_line_then_rejoined_arguments
      [OF conjunct1 [OF f] tb _ _ _ lcb ab [of full_shell] _ nbb p q, of 0]
    by (auto simp: f ring_append_def Let_def)
  show ?thesis using hist_inv_start [of Map.empty] p q l0 o f r1 r2 r3 r4 by simp
qed

subsection \<open>Invariants of the reachable states\<close>

text \<open>
  Every state that the loop of \<open>main\<close> reaches has a well-formed ring without two equal
  neighbours, and distinct variable names.
\<close>

lemma shell_inv_emit [simp]: "shell_inv (emit es s) = shell_inv s"
  by (simp add: shell_inv_def emit_def)

lemma shell_inv_initialize: "shell_inv (initialize_shell e)"
  by (simp add: shell_inv_def initialize_shell_def hist_inv_initial)
    (simp add: hist_lines_def initial_history_def)

lemma shell_inv_add_history:
  "shell_inv s \<Longrightarrow> shell_inv (s\<lparr>history := add_history command (history s)\<rparr>)"
  by (simp add: shell_inv_def add_history_inv add_history_lines spec_record_distinct_adj)

lemma var_head_set_history_capacity [simp]:
  "var_head (set_history_capacity cap s) = var_head s"
  by (simp add: set_history_capacity_def Let_def)

lemma shell_inv_set_history_capacity:
  assumes "shell_inv s"
  shows "shell_inv (set_history_capacity cap s)"
proof (cases "cap \<le> 0")
  case True
  then show ?thesis using assms by (simp add: shell_inv_def set_history_capacity_def)
next
  case False
  then show ?thesis using assms
    by (simp add: shell_inv_def set_history_capacity_inv set_history_capacity_lines
        take_rev_distinct_adj)
qed

lemma wsh_cd_inv: "shell_inv s \<Longrightarrow> inv_result (wsh_cd w args s)"
  by (simp add: wsh_cd_def inv_result_def split: option.splits)

lemma wsh_exit_cmd_inv: "shell_inv s \<Longrightarrow> inv_result (wsh_exit_cmd args s)"
  by (simp add: wsh_exit_cmd_def inv_result_def)

lemma wsh_export_inv: "shell_inv s \<Longrightarrow> inv_result (wsh_export args s)"
  by (auto simp: wsh_export_def inv_result_def setenv_def shell_inv_def emit_def
      split: option.splits prod.splits if_splits)

lemma wsh_local_cmd_inv: "shell_inv s \<Longrightarrow> inv_result (wsh_local_cmd args s)"
  by (auto simp: wsh_local_cmd_def inv_result_def Let_def shell_inv_def emit_def
      distinct_update_var split: option.splits prod.splits)

lemma wsh_vars_inv: "shell_inv s \<Longrightarrow> inv_result (wsh_vars args s)"
  by (simp add: wsh_vars_def inv_result_def)

lemma wsh_ls_inv: "shell_inv s \<Longrightarrow> wsh_ls w args s = Some r \<Longrightarrow> inv_result r"
  by (auto simp: wsh_ls_def inv_result_def Let_def split: if_splits option.splits)

lemma launch_child_inv: "inv_result (launch_child w args r s)"
  by (simp add: launch_child_def inv_result_def Let_def
      split: prod.splits list.splits option.splits)

lemma launch_process_inv: "shell_inv s \<Longrightarrow> launch_process w args s = Some r \<Longrightarrow> inv_result r"
  by (auto simp: launch_process_def launch_child_inv split: if_splits option.splits prod.splits)
    (simp_all add: inv_result_def)

lemma execute_history_command_inv:
  assumes "\<And>args s r. shell_inv s \<Longrightarrow> exec args s = Some r \<Longrightarrow> inv_result r"
    and "shell_inv s" and "execute_history_command exec k s = Some r"
  shows "inv_result r"
proof -
  have "r = Returns 1 s \<or> (\<exists>args st s'. exec args s = Some (Returns st s') \<and> r = Returns 1 s')
      \<or> (\<exists>args. exec args s = Some r)"
    using assms(3)
    by (auto simp: execute_history_command_def Let_def
        split: if_splits option.splits outcome.splits)
  then consider "r = Returns 1 s"
    | args st s' where "exec args s = Some (Returns st s')" "r = Returns 1 s'"
    | args where "exec args s = Some r"
    by blast
  then show ?thesis
  proof cases
    case 1
    then show ?thesis using assms(2) by (simp add: inv_result_def)
  next
    case 2
    from assms(1) [OF assms(2) 2(1)] 2(2) show ?thesis by (simp add: inv_result_def)
  next
    case 3
    from assms(1) [OF assms(2) 3] show ?thesis .
  qed
qed

lemma wsh_history_cmd_inv:
  assumes "\<And>args s r. shell_inv s \<Longrightarrow> exec args s = Some r \<Longrightarrow> inv_result r"
    and "shell_inv s" and "wsh_history_cmd exec args s = Some r"
  shows "inv_result r"
proof -
  have "r = Returns 1 (emit (show_history (history s)) s) \<or>
        (\<exists>m. r = Returns 1 (emit [Eprintf m []] s)) \<or>
        (\<exists>c. r = Returns 1 (set_history_capacity c s)) \<or> r = Returns 1 s \<or>
        (\<exists>k. execute_history_command exec k s = Some r)"
    using assms(3)
    by (auto simp: wsh_history_cmd_def Let_def split: option.splits if_splits)
  then show ?thesis
    using execute_history_command_inv [OF assms(1) assms(2)] assms(2)
    by (auto simp: inv_result_def shell_inv_set_history_capacity)
qed

lemma builtin_func_inv:
  assumes "\<And>args s r. shell_inv s \<Longrightarrow> exec args s = Some r \<Longrightarrow> inv_result r"
    and "shell_inv s" and "builtin_func i exec w args s = Some r"
  shows "inv_result r"
  using assms(3) wsh_history_cmd_inv [OF assms(1) assms(2)] wsh_ls_inv [OF assms(2)]
    wsh_cd_inv [OF assms(2)] wsh_exit_cmd_inv [OF assms(2)] wsh_export_inv [OF assms(2)]
    wsh_local_cmd_inv [OF assms(2)] wsh_vars_inv [OF assms(2)]
  by (auto simp: builtin_func_def split: if_splits)

lemma dispatch_command_inv:
  assumes "\<And>args s r. shell_inv s \<Longrightarrow> exec args s = Some r \<Longrightarrow> inv_result r"
    and "shell_inv s" and "dispatch_command exec w args s = Some r"
  shows "inv_result r"
  using assms(3) builtin_func_inv [OF assms(1) assms(2)]
    launch_process_inv [OF shell_inv_add_history [OF assms(2)]]
  by (auto simp: dispatch_command_def Let_def split: option.splits)

lemma execute_body_inv:
  assumes "\<And>args s r. shell_inv s \<Longrightarrow> exec args s = Some r \<Longrightarrow> inv_result r"
    and "shell_inv s" and "execute_body exec w args s = Some r"
  shows "inv_result r"
  using execute_body_cases [OF assms(3)] dispatch_command_inv [OF assms(1) assms(2)]
    execute_history_command_inv [OF assms(1) assms(2)] assms(2)
  by (auto simp: inv_result_def)

lemma execute_command_inv:
  "shell_inv s \<Longrightarrow> execute_command n w args s = Some r \<Longrightarrow> inv_result r"
proof (induction n arbitrary: args s r)
  case 0
  then show ?case using execute_body_inv [of "\<lambda>args s. None" s w args r] by simp
next
  case (Suc n)
  then show ?case using execute_body_inv [of "execute_command n w" s w args r] by simp
qed

lemma main_iteration_inv:
  assumes "shell_inv s" and "main_iteration n w line s = Some (Returns st s')"
  shows "shell_inv s'"
proof -
  have "s' = s \<or> (\<exists>c args. execute_command n w args (s\<lparr>history := add_history c (history s)\<rparr>)
      = Some (Returns st s'))"
    using assms(2) by (auto simp: main_iteration_def Let_def split: if_splits)
  then consider "s' = s"
    | c args where "execute_command n w args (s\<lparr>history := add_history c (history s)\<rparr>)
        = Some (Returns st s')"
    by blast
  then show ?thesis
  proof cases
    case 1
    then show ?thesis using assms(1) by simp
  next
    case 2
    from execute_command_inv [OF shell_inv_add_history [OF assms(1)] 2]
    show ?thesis by (simp add: inv_result_def)
  qed
qed

subsection \<open>A line that replays itself\<close>

text \<open>
  The line \<open>history 1\<close> is itself recorded before it runs, so that it replays itself:
  no bound on the depth of replays lets it end.
\<close>

lemma parse_line_history_1: "parse_line s ''history 1'' = [''history'', ''1'']"
  by (simp add: parse_line_def parse_loop_map strtok_all_Cons DELIMITERS_def
      handle_variable_substitution_def)

lemma atoi_1: "atoi ''1'' = 1"
  by (simp add: atoi_def strtol_def int_of_long_def LONG_MAX_def LONG_MIN_def isspace_def
      isdigit_def)

lemma self_replay_diverges:
  assumes "0 < count (history s)"
    and "commands (history s) ! slot (history s) (count (history s) - 1) = Some ''history 1''"
  shows "execute_command n w [''history'', ''1''] s = None"
proof (induction n)
  case 0
  show ?case using assms
    by (simp add: execute_body_def arg_def atoi_1 execute_history_command_def
        parse_line_history_1)
next
  case (Suc n)
  have "execute_command (Suc n) w [''history'', ''1''] s =
      execute_history_command (execute_command n w) 1 s"
    by (simp add: execute_body_def arg_def atoi_1)
  also have "\<dots> = None"
    using assms Suc by (simp add: execute_history_command_def parse_line_history_1)
  finally show ?case .
qed

lemma typed_history_1_diverges:
  assumes "hist_inv (history s)"
  shows "main_iteration n w ''history 1\<newline>'' s = None"
proof -
  have nb: "''history 1'' \<notin> set builtin_str" by (simp add: builtin_str_def)
  let ?s1 = "s\<lparr>history := add_history ''history 1'' (history s)\<rparr>"
  have "main_iteration n w ''history 1\<newline>'' s =
      execute_command n w (parse_line ?s1 ''history 1\<newline>'') ?s1"
    by (simp add: main_iteration_def Let_def)
  also have "parse_line ?s1 ''history 1\<newline>'' = [''history'', ''1'']"
    by (simp add: parse_line_def parse_loop_map strtok_all_Cons DELIMITERS_def
      handle_variable_substitution_def del: handle_variable_substitution_history)
  also have "execute_command n w [''history'', ''1''] ?s1 = None"
    using hist_inv_newest [OF assms nb] by (intro self_replay_diverges) simp_all
  finally show ?thesis .
qed

subsection \<open>A run that reaches the sample state\<close>

text \<open>
  The state \<open>sample_shell\<close> is the one in which the third line of this run is executed.
\<close>

lemma launch_process_sample_os:
  "\<not> is_redirection_token a \<Longrightarrow> launch_process sample_os [a] s = Some (Returns 1 s)"
  by (simp add: launch_process_def parse_redirection_def scan_redirection.simps
      is_redirection_token_tests sample_os_def emit_def)

lemma sample_step_1:
  "main_iteration n sample_os ''$X\<newline>'' (initialize_shell Map.empty) =
     Some (Returns 1 ((initialize_shell Map.empty)
       \<lparr>history := \<lparr>commands = [Some ''$X'', Some [], None, None, None],
                     capacity = 5, count = 2, start = 0\<rparr>\<rparr>))"
proof -
  have a: "find_builtin ''$X'' builtin_str 0 = None" by (simp add: builtin_str_def)
  have b: "find_builtin [] builtin_str 0 = None" by (simp add: builtin_str_def)
  have p: "parse_line (initialize_shell Map.empty) ''$X\<newline>'' = [[]]"
    by (simp add: parse_line_def parse_loop_map strtok_all_Cons DELIMITERS_def
      handle_variable_substitution_def getenv_def initialize_shell_def)
  have h: "add_history [] (add_history ''$X'' initial_history) =
      \<lparr>commands = [Some ''$X'', Some [], None, None, None], capacity = 5, count = 2, start = 0\<rparr>"
    by (simp add: add_history_initial [OF a]) (simp add: add_history_def b slot_def eval_nat_numeral)
  have n: "\<not> is_redirection_token []" by (simp add: is_redirection_token_tests strncmp_is_0_def)
  have i: "history (initialize_shell Map.empty) = initial_history"
    by (simp add: initialize_shell_def)
  show ?thesis
    by (simp add: main_iteration_def Let_def p execute_command_unfold [of n] execute_body_def
        dispatch_command_def b launch_process_sample_os [OF n] i h)
qed

lemma sample_step_2:
  "main_iteration n sample_os ''local X=exit\<newline>''
     ((initialize_shell Map.empty)
        \<lparr>history := \<lparr>commands = [Some ''$X'', Some [], None, None, None],
                      capacity = 5, count = 2, start = 0\<rparr>\<rparr>) =
     Some (Returns 1 ((initialize_shell Map.empty)
       \<lparr>var_head := [(''X'', ''exit'')],
        history := \<lparr>commands = [Some ''$X'', Some [], Some ''local X=exit'', None, None],
                     capacity = 5, count = 3, start = 0\<rparr>\<rparr>))"
proof -
  have a: "find_builtin ''local X=exit'' builtin_str 0 = None" by (simp add: builtin_str_def)
  have p: "parse_line s ''local X=exit\<newline>'' = [''local'', ''X=exit'']" for s
    by (simp add: parse_line_def parse_loop_map strtok_all_Cons DELIMITERS_def
      handle_variable_substitution_def)
  have h: "add_history ''local X=exit''
      \<lparr>commands = [Some ''$X'', Some [], None, None, None], capacity = 5, count = 2, start = 0\<rparr>
    = \<lparr>commands = [Some ''$X'', Some [], Some ''local X=exit'', None, None],
                     capacity = 5, count = 3, start = 0\<rparr>"
    by (simp add: add_history_def a slot_def eval_nat_numeral)
  show ?thesis
    by (simp add: main_iteration_def Let_def p h execute_command_unfold [of n] execute_body_def
        dispatch_command_def builtin_str_def builtin_func_def wsh_local_cmd_def arg_def
        split_assignment_def handle_variable_substitution_def initialize_shell_def)
qed

lemma sample_step_3:
  "main_iteration 1 sample_os ''history 4\<newline>''
     ((initialize_shell Map.empty)
       \<lparr>var_head := [(''X'', ''exit'')],
        history := \<lparr>commands = [Some ''$X'', Some [], Some ''local X=exit'', None, None],
                     capacity = 5, count = 3, start = 0\<rparr>\<rparr>) =
     execute_command 1 sample_os [''history'', ''4''] sample_shell"
proof -
  have a: "find_builtin ''history 4'' builtin_str 0 = None" by (simp add: builtin_str_def)
  have p: "parse_line s ''history 4\<newline>'' = [''history'', ''4'']" for s
    by (simp add: parse_line_def parse_loop_map strtok_all_Cons DELIMITERS_def
      handle_variable_substitution_def)
  have h: "add_history ''history 4''
      \<lparr>commands = [Some ''$X'', Some [], Some ''local X=exit'', None, None],
                     capacity = 5, count = 3, start = 0\<rparr>
    = \<lparr>commands = [Some ''$X'', Some [], Some ''local X=exit'', Some ''history 4'', None],
                     capacity = 5, count = 4, start = 0\<rparr>"
    by (simp add: add_history_def a slot_def eval_nat_numeral)
  have s: "(initialize_shell Map.empty)
       \<lparr>var_head := [(''X'', ''exit'')],
        history := \<lparr>commands = [Some ''$X'', Some [], Some ''local X=exit'', Some ''history 4'', None],
                     capacity = 5, count = 4, start = 0\<rparr>\<rparr> = sample_shell"
    by (simp add: sample_shell_def initialize_shell_def DEFAULT_PATH_def)
  show ?thesis
    by (simp add: main_iteration_def Let_def p h s del: execute_command.simps One_nat_def)
qed

lemma sample_shell_reached:
  "main_loop 1 False
     [(sample_os, ''$X\<newline>''), (sample_os, ''local X=exit\<newline>''),
      (sample_os, ''history 4\<newline>''), (sample_os, ''echo never\<newline>'')]
     (initialize_shell Map.empty) =
   Some (Exits EXIT_SUCCESS (cleanup_shell sample_shell))"
  by (simp add: sample_step_1 sample_step_2 sample_step_3 sample_replay_exits
      del: execute_command.simps One_nat_def)

end
